theory Spec2Isabelle
  imports Main "HOL-Library.Sublist"
begin

section \<open>Python strings\<close>

text \<open>
  A Python \<open>str\<close> is a sequence of code points. The model uses \<open>string\<close> and reads each
  \<open>char\<close> as one code point below 256, which covers every text the functions below
  compare against (all their keywords and separators are ASCII).
\<close>

definition py_isspace :: "char \<Rightarrow> bool" where
  \<comment> \<open>\<open>str.isspace\<close> and the regex class \<open>\s\<close> on code points below 256.\<close>
  "py_isspace c =
     (let n = (of_char c :: nat)
      in (9 \<le> n \<and> n \<le> 13) \<or> (28 \<le> n \<and> n \<le> 32) \<or> n = 133 \<or> n = 160)"

definition py_lower_char :: "char \<Rightarrow> char" where
  \<comment> \<open>\<open>str.lower\<close> on one code point below 256: A-Z and the Latin-1 capitals.\<close>
  "py_lower_char c =
     (let n = (of_char c :: nat)
      in if (65 \<le> n \<and> n \<le> 90) \<or> (192 \<le> n \<and> n \<le> 222 \<and> n \<noteq> 215)
         then char_of (n + 32) else c)"

definition py_lower :: "string \<Rightarrow> string" where
  "py_lower s = map py_lower_char s"

definition lstrip_where :: "(char \<Rightarrow> bool) \<Rightarrow> string \<Rightarrow> string" where
  "lstrip_where P s = dropWhile P s"

definition rstrip_where :: "(char \<Rightarrow> bool) \<Rightarrow> string \<Rightarrow> string" where
  "rstrip_where P s = rev (dropWhile P (rev s))"

definition strip_where :: "(char \<Rightarrow> bool) \<Rightarrow> string \<Rightarrow> string" where
  "strip_where P s = rstrip_where P (lstrip_where P s)"

definition py_strip :: "string \<Rightarrow> string" where
  \<comment> \<open>\<open>s.strip()\<close>\<close>
  "py_strip s = strip_where py_isspace s"

definition is_dash :: "char \<Rightarrow> bool" where
  "is_dash c = (c = CHR ''-'')"

definition startswith :: "string \<Rightarrow> string \<Rightarrow> bool" where
  \<comment> \<open>\<open>s.startswith(p)\<close>\<close>
  "startswith s p = prefix p s"

fun contains :: "string \<Rightarrow> string \<Rightarrow> bool" where
  \<comment> \<open>\<open>p in s\<close>\<close>
  "contains [] p = (p = [])"
| "contains (c # cs) p = (prefix p (c # cs) \<or> contains cs p)"

function py_split :: "string \<Rightarrow> string \<Rightarrow> string \<Rightarrow> string list" where
  \<comment> \<open>\<open>s.split(sep)\<close> for a non-empty \<open>sep\<close>, called as \<open>py_split sep [] s\<close>; the second
      argument holds the current piece, reversed. Every call site passes a constant
      separator, so the \<open>ValueError\<close> of an empty one cannot happen.\<close>
  "py_split sep acc [] = [rev acc]"
| "py_split sep acc (c # cs) =
     (if sep \<noteq> [] \<and> prefix sep (c # cs)
      then rev acc # py_split sep [] (drop (length sep) (c # cs))
      else py_split sep (c # acc) cs)"
  by pat_completeness auto
termination
  by (relation "measure (\<lambda>(sep, acc, s). length s)") auto

fun str_nat :: "nat \<Rightarrow> string" where
  \<comment> \<open>the decimal text of a non-negative integer, as an f-string renders it\<close>
  "str_nat n =
     (if n < 10 then [char_of (48 + n)]
      else str_nat (n div 10) @ [char_of (48 + n mod 10)])"

declare str_nat.simps [simp del]

section \<open>Repository names (\<open>path_to_repo_name\<close>)\<close>

definition posix_parts :: "string \<Rightarrow> string list" where
  \<comment> \<open>the components of a POSIX path: empty pieces and single dots are collapsed\<close>
  "posix_parts p = filter (\<lambda>s. s \<noteq> [] \<and> s \<noteq> ''.'') (py_split ''/'' [] p)"

definition path_name :: "string \<Rightarrow> string" where
  \<comment> \<open>\<open>Path(p).name\<close>: the final component, or the empty string\<close>
  "path_name p = (case rev (posix_parts p) of [] \<Rightarrow> [] | s # _ \<Rightarrow> s)"

definition space_to_dash :: "char \<Rightarrow> char" where
  "space_to_dash c = (if c = CHR '' '' then CHR ''-'' else c)"

function collapse_dashes :: "string \<Rightarrow> string" where
  \<comment> \<open>\<open>re.sub(r'-+', '-', name)\<close>\<close>
  "collapse_dashes [] = []"
| "collapse_dashes (c # cs) =
     (if is_dash c then c # collapse_dashes (dropWhile is_dash cs)
      else c # collapse_dashes cs)"
  by pat_completeness auto
termination
  by (relation "measure length") (auto simp: length_dropWhile_le less_Suc_eq_le)

definition valid_char :: "char \<Rightarrow> bool" where
  \<comment> \<open>the characters that \<open>re.sub(r'[^a-z0-9\-_]', '', name)\<close> keeps\<close>
  "valid_char c =
     (let n = (of_char c :: nat)
      in (97 \<le> n \<and> n \<le> 122) \<or> (48 \<le> n \<and> n \<le> 57) \<or> c = CHR ''-'' \<or> c = CHR ''_'')"

definition truncate_name :: "string \<Rightarrow> string" where
  \<comment> \<open>\<open>if len(name) > 100: name = name[:100].rstrip('-')\<close>\<close>
  "truncate_name name =
     (if length name > 100 then rstrip_where is_dash (take 100 name) else name)"

definition clean_name :: "string \<Rightarrow> string" where
  \<comment> \<open>lines 100 to 107: lowercase, spaces to dashes, collapse, remove, strip\<close>
  "clean_name seg =
     strip_where is_dash
       (filter valid_char (collapse_dashes (map space_to_dash (py_lower seg))))"

definition path_to_repo_name :: "string \<Rightarrow> string" where
  "path_to_repo_name path =
     (let name = truncate_name (clean_name (path_name path))
      in if name \<noteq> [] then name else ''repo'')"

definition word_char :: "char \<Rightarrow> bool" where
  \<comment> \<open>an ASCII letter, a digit or an underscore: what can survive into a name\<close>
  "word_char c =
     (let n = (of_char c :: nat)
      in (97 \<le> n \<and> n \<le> 122) \<or> (65 \<le> n \<and> n \<le> 90) \<or> (48 \<le> n \<and> n \<le> 57) \<or> c = CHR ''_'')"

definition plain_char :: "char \<Rightarrow> bool" where
  \<comment> \<open>a lowercase ASCII letter, a digit or an underscore\<close>
  "plain_char c =
     (let n = (of_char c :: nat)
      in (97 \<le> n \<and> n \<le> 122) \<or> (48 \<le> n \<and> n \<le> 57) \<or> c = CHR ''_'')"

section \<open>The command runner (\<open>run_cmd\<close>) and the world around a job\<close>

text \<open>
  What \<open>subprocess.run\<close> can do: complete with an exit status and the two captured
  streams, raise \<open>TimeoutExpired\<close>, or raise any other exception (whose \<open>str\<close> is kept).
\<close>

datatype proc_outcome =
    Completed int string string
  | TimeoutExpired
  | Raised string

fun run_cmd_result :: "bool \<Rightarrow> proc_outcome \<Rightarrow> bool \<times> string \<times> string" where
  \<comment> \<open>The body of \<open>run_cmd\<close> after the process has run; the first argument is \<open>capture\<close>.\<close>
  "run_cmd_result capture (Completed returncode out err) =
     (returncode = 0, (if capture then out else []), (if capture then err else []))"
| "run_cmd_result capture TimeoutExpired = (False, [], ''Command timed out'')"
| "run_cmd_result capture (Raised e) = (False, [], e)"

text \<open>
  The runner catches \<open>TimeoutExpired\<close> and \<open>Exception\<close>. A call of \<open>subprocess.run\<close>
  therefore ends either in one of the outcomes above, which the runner turns into a
  triple, or in an exception outside \<open>Exception\<close> (\<open>KeyboardInterrupt\<close>, \<open>SystemExit\<close>),
  which no clause catches and which leaves the runner as it came (\<open>Inl\<close>).
\<close>

datatype call_end =
    Handled proc_outcome
  | Escapes string

fun run_cmd_call :: "bool \<Rightarrow> call_end \<Rightarrow> string + (bool \<times> string \<times> string)" where
  \<comment> \<open>the \<open>try\<close> statement of \<open>run_cmd\<close>\<close>
  "run_cmd_call capture (Handled outcome) = Inr (run_cmd_result capture outcome)"
| "run_cmd_call capture (Escapes e) = Inl e"

text \<open>
  A job leaves a trace of what it did to the world: the commands it ran (command line,
  working directory, timeout in seconds), its sleeps (seconds) and the directory trees it
  removed. The world answers through a function: \<open>env cmd k\<close> is the outcome of the
  \<open>k\<close>-th run (from 0) of the command line \<open>cmd\<close> within the job. Theorems hold for every
  such function, that is for every behaviour of git and gh.
\<close>

datatype event =
    Run string "string option" nat
  | Sleep nat
  | Rmtree string

type_synonym world = "string \<Rightarrow> nat \<Rightarrow> proc_outcome"

fun runs :: "string \<Rightarrow> event \<Rightarrow> bool" where
  "runs cmd (Run c cwd t) = (c = cmd)"
| "runs cmd (Sleep n) = False"
| "runs cmd (Rmtree p) = False"

definition times_run :: "string \<Rightarrow> event list \<Rightarrow> nat" where
  "times_run cmd tr = length (filter (runs cmd) tr)"

definition run_cmd ::
  "world \<Rightarrow> string \<Rightarrow> string option \<Rightarrow> nat \<Rightarrow> event list
     \<Rightarrow> (bool \<times> string \<times> string) \<times> event list" where
  \<comment> \<open>\<open>run_cmd(cmd, cwd, timeout=...)\<close> with \<open>capture\<close> left at its default \<open>True\<close>,
      as every call site does.\<close>
  "run_cmd env cmd cwd timeout tr =
     (run_cmd_result True (env cmd (times_run cmd tr)), tr @ [Run cmd cwd timeout])"

definition GITHUB_FILE_LIMIT :: nat where
  "GITHUB_FILE_LIMIT = 100 * 1024 * 1024"

definition GITHUB_USERNAME :: string where
  "GITHUB_USERNAME = ''Michaelunkai''"

definition dq :: string where
  \<comment> \<open>the double quote\<close>
  "dq = [CHR 0x22]"

definition nl :: string where
  \<comment> \<open>the line feed\<close>
  "nl = [CHR 0x0A]"

section \<open>Job results (\<open>Result\<close>)\<close>

record result =
  path :: string
  success :: bool
  message :: string
  repo_url :: string
  lfs_files :: nat
  total_files :: nat

definition new_result :: "string \<Rightarrow> result" where
  \<comment> \<open>\<open>Result(path=dir_path, success=False, message="")\<close>\<close>
  "new_result dir_path =
     \<lparr>path = dir_path, success = False, message = [], repo_url = [],
      lfs_files = 0, total_files = 0\<rparr>"

section \<open>Shared statistics (\<open>Stats\<close>)\<close>

record stats =
  total :: int
  completed :: int
  success :: int
  failed :: int
  lfs_files :: int

definition new_stats :: "int \<Rightarrow> stats" where
  \<comment> \<open>\<open>Stats(total=n)\<close>: every counter starts at 0\<close>
  "new_stats n = \<lparr>total = n, completed = 0, success = 0, failed = 0, lfs_files = 0\<rparr>"

definition increment_completed :: "bool \<Rightarrow> int \<Rightarrow> stats \<Rightarrow> stats" where
  \<comment> \<open>The body runs under the lock, so it is one atomic step on the shared record.\<close>
  "increment_completed ok lfs_count s =
     (let s1 = s\<lparr>completed := completed s + 1\<rparr>;
          s2 = s1\<lparr>lfs_files := lfs_files s1 + lfs_count\<rparr>
      in if ok then s2\<lparr>success := success s2 + 1\<rparr>
         else s2\<lparr>failed := failed s2 + 1\<rparr>)"

section \<open>Large files (\<open>get_large_files\<close>, \<open>get_lfs_patterns\<close>)\<close>

text \<open>
  One item of \<open>dir_path.rglob("*")\<close>: its components below the directory, whether
  \<open>is_file()\<close> holds, and the size \<open>stat()\<close> reports (\<open>None\<close> when \<open>stat()\<close> raises).
\<close>

record tree_item =
  rel_parts :: "string list"
  is_file :: bool
  st_size :: "nat option"

definition join_parts :: "string list \<Rightarrow> string" where
  \<comment> \<open>\<open>str\<close> of a relative POSIX path\<close>
  "join_parts ps = (case ps of [] \<Rightarrow> ''.'' | q # qs \<Rightarrow> foldl (\<lambda>a b. a @ ''/'' @ b) q qs)"

definition backslash_to_slash :: "string \<Rightarrow> string" where
  \<comment> \<open>\<open>.replace("\\", "/")\<close>\<close>
  "backslash_to_slash s = map (\<lambda>c. if c = CHR 0x5C then CHR ''/'' else c) s"

definition in_git :: "string list \<Rightarrow> tree_item \<Rightarrow> bool" where
  \<comment> \<open>\<open>".git" in item.parts\<close>, the parts of the directory itself included\<close>
  "in_git root_parts item = (''.git'' \<in> set (root_parts @ rel_parts item))"

definition is_large :: "string list \<Rightarrow> tree_item \<Rightarrow> bool" where
  \<comment> \<open>the item passes every test of the loop body\<close>
  "is_large root_parts item =
     (\<not> in_git root_parts item \<and> is_file item \<and>
      (case st_size item of None \<Rightarrow> False | Some n \<Rightarrow> n > GITHUB_FILE_LIMIT))"

definition get_large_files :: "string list \<Rightarrow> tree_item list \<Rightarrow> string list" where
  "get_large_files root_parts items =
     map (\<lambda>item. backslash_to_slash (join_parts (rel_parts item)))
       (filter (is_large root_parts) items)"

definition rfind_dot :: "string \<Rightarrow> nat option" where
  \<comment> \<open>\<open>name.rfind('.')\<close>, with \<open>None\<close> for -1\<close>
  "rfind_dot name =
     (case filter (\<lambda>i. name ! i = CHR ''.'') (rev [0..<length name]) of
        [] \<Rightarrow> None | i # _ \<Rightarrow> Some i)"

definition path_suffix :: "string \<Rightarrow> string" where
  \<comment> \<open>\<open>Path(f).suffix\<close> (Python 3.4 to 3.13): from the last dot of the final
      component, unless that dot is its first or its last character\<close>
  "path_suffix f =
     (let name = path_name f
      in case rfind_dot name of
           None \<Rightarrow> []
         | Some i \<Rightarrow> if 0 < i \<and> i + 1 < length name then drop i name else [])"

definition lfs_pattern :: "string \<Rightarrow> string" where
  \<comment> \<open>the body of the loop of \<open>get_lfs_patterns\<close>\<close>
  "lfs_pattern f = (let ext = py_lower (path_suffix f) in if ext \<noteq> [] then ''*'' @ ext else f)"

definition get_lfs_patterns :: "string list \<Rightarrow> string set" where
  "get_lfs_patterns large_files = foldl (\<lambda>patterns f. insert (lfs_pattern f) patterns) {} large_files"

section \<open>List files (\<open>read_dirs_from_file\<close>)\<close>

definition dirs_of_line :: "string \<Rightarrow> string list" where
  \<comment> \<open>the body of the loop over the lines, as the entries it appends\<close>
  "dirs_of_line raw =
     (let line = py_strip raw
      in if line \<noteq> [] \<and> \<not> startswith line ''#''
         then if startswith line ''gitit ''
              then map (\<lambda>part. py_strip (drop 6 part))
                     (filter (\<lambda>part. startswith part ''gitit '') (py_split ''; '' [] line))
              else [line]
         else [])"

definition read_dirs_from_file :: "string list \<Rightarrow> string list" where
  \<comment> \<open>the argument is the list of lines the open file yields\<close>
  "read_dirs_from_file file_lines = concat (map dirs_of_line file_lines)"

section \<open>The one-liner converter (\<open>convert_oneliner.py\<close>)\<close>








fun oneliner_text :: "string list \<Rightarrow> string" where
  \<comment> \<open>the usual one-liner, \<open>gitit p1; gitit p2; ...; gitit pn\<close>\<close>
  "oneliner_text [] = []"
| "oneliner_text [p] = ''gitit '' @ p"
| "oneliner_text (p # q # ps) = ''gitit '' @ p @ ''; '' @ oneliner_text (q # ps)"


fun join_with :: "string \<Rightarrow> string list \<Rightarrow> string" where
  \<comment> \<open>\<open>sep.join(pieces)\<close>\<close>
  "join_with sep [] = []"
| "join_with sep [x] = x"
| "join_with sep (x # y # xs) = x @ sep @ join_with sep (y # xs)"

section \<open>The publish workflow (\<open>process_directory\<close>)\<close>

text \<open>
  What a job sees of its directory: the resolved path, whether it exists, whether it has a
  \<open>.git\<close> of its own, the items of the walk \<open>rglob("*")\<close>, the nested \<open>.git\<close>
  directories, the exception a walk raises (if any), and the clock reading used in the
  commit message. Outside \<open>.git\<close> the tree is taken not to change during the job.
\<close>

record job_view =
  resolved :: string
  dir_exists :: bool
  has_git_dir :: bool
  tree :: "tree_item list"
  nested_git_dirs :: "string list"
  walk_fault :: "string option"
  timestamp :: string

definition repo_slug :: "string \<Rightarrow> string" where
  \<comment> \<open>\<open>{GITHUB_USERNAME}/{repo_name}\<close>\<close>
  "repo_slug repo_name = GITHUB_USERNAME @ ''/'' @ repo_name"

definition github_url :: "string \<Rightarrow> string" where
  "github_url repo_name = ''https://github.com/'' @ repo_slug repo_name"

definition is_already_synced ::
  "world \<Rightarrow> job_view \<Rightarrow> event list \<Rightarrow> (bool \<times> string) \<times> event list" where
  "is_already_synced env v tr =
     (if \<not> has_git_dir v then ((False, ''No .git''), tr)
      else
        let ((ok, remote, e1), tr1) =
              run_cmd env ''git remote get-url origin'' (Some (resolved v)) 300 tr
        in if \<not> ok \<or> py_strip remote = [] then ((False, ''No remote''), tr1)
           else
             let ((ok2, status, e2), tr2) =
                   run_cmd env ''git status --porcelain'' (Some (resolved v)) 300 tr1
             in if ok2 \<and> py_strip status = []
                then
                  let ((ok3, ahead, e3), tr3) =
                        run_cmd env ''git rev-list --count origin/main..HEAD 2>nul''
                          (Some (resolved v)) 300 tr2
                  in if ok3 \<and> py_strip ahead = ''0''
                     then ((True, ''Already synced''), tr3)
                     else ((False, ''Has changes''), tr3)
                else ((False, ''Has changes''), tr2))"

definition run_all :: "world \<Rightarrow> string option \<Rightarrow> nat \<Rightarrow> string list \<Rightarrow> event list \<Rightarrow> event list" where
  \<comment> \<open>commands run one after the other, their results ignored\<close>
  "run_all env cwd timeout cmds tr = foldl (\<lambda>t cmd. snd (run_cmd env cmd cwd timeout t)) tr cmds"

definition first_occurrences :: "string list \<Rightarrow> string list" where
  \<comment> \<open>a list without its repetitions, each value where it first occurs\<close>
  "first_occurrences xs = rev (remdups (rev xs))"

definition setup_git_lfs ::
  "world \<Rightarrow> string \<Rightarrow> string list \<Rightarrow> event list \<Rightarrow> bool \<times> event list" where
  \<comment> \<open>The patterns are a set, which Python iterates in an order it does not specify;
      the model tracks them in the order of their first insertion, and nothing proved
      below depends on that order.\<close>
  "setup_git_lfs env dir large_files tr =
     (if large_files = [] then (True, tr)
      else
        let ((ok, o1, e1), tr1) = run_cmd env ''git lfs install --local'' (Some dir) 300 tr
        in if \<not> ok then (False, tr1)
           else
             let track = (\<lambda>p. ''git lfs track '' @ dq @ p @ dq);
                 tr2 = run_all env (Some dir) 300
                         (map track (first_occurrences (map lfs_pattern large_files))) tr1;
                 tr3 = run_all env (Some dir) 300 (map track large_files) tr2
             in (True, tr3))"

definition create_cmd :: "string \<Rightarrow> string" where
  "create_cmd repo_name = ''gh repo create '' @ repo_slug repo_name @ '' --public''"

definition view_cmd :: "string \<Rightarrow> string" where
  "view_cmd repo_name = ''gh repo view '' @ repo_slug repo_name"

fun create_attempts :: "world \<Rightarrow> string \<Rightarrow> nat list \<Rightarrow> event list \<Rightarrow> bool \<times> event list" where
  \<comment> \<open>the loop \<open>for attempt in range(3)\<close> of \<open>ensure_github_repo\<close>; the flag tells
      whether the function returned from inside the loop\<close>
  "create_attempts env repo_name [] tr = (False, tr)"
| "create_attempts env repo_name (attempt # rest) tr =
     (let ((create_ok, o1, create_err), tr1) = run_cmd env (create_cmd repo_name) None 60 tr
      in if create_ok then (True, tr1 @ [Sleep 1])
         else if contains (py_lower create_err) ''already exists'' then (True, tr1)
         else create_attempts env repo_name rest (tr1 @ [Sleep (2 * (attempt + 1))]))"

definition ensure_github_repo :: "world \<Rightarrow> string \<Rightarrow> event list \<Rightarrow> bool \<times> event list" where
  "ensure_github_repo env repo_name tr =
     (let ((ok, o1, e1), tr1) = run_cmd env (view_cmd repo_name) None 30 tr
      in if \<not> ok
         then
           let (returned, tr2) = create_attempts env repo_name [0..<3] tr1
           in if returned then (True, tr2)
              else (True, snd (run_cmd env (create_cmd repo_name) None 60 tr2) @ [Sleep 2])
         else (True, tr1))"

fun verify_attempts :: "world \<Rightarrow> string \<Rightarrow> nat list \<Rightarrow> event list \<Rightarrow> event list" where
  \<comment> \<open>the loop \<open>for verify_attempt in range(3)\<close>\<close>
  "verify_attempts env repo_name [] tr = tr"
| "verify_attempts env repo_name (verify_attempt # rest) tr =
     (let ((verify_ok, o1, e1), tr1) = run_cmd env (view_cmd repo_name) None 15 tr
      in if verify_ok then tr1 else verify_attempts env repo_name rest (tr1 @ [Sleep 2]))"

definition staged_list :: "bool \<times> string \<times> string \<Rightarrow> string list" where
  \<comment> \<open>\<open>[f for f in staged_out.strip().split('\n') if f.strip()] if staged_ok else []\<close>\<close>
  "staged_list r =
     (case r of (staged_ok, staged_out, e) \<Rightarrow>
        if staged_ok
        then filter (\<lambda>f. py_strip f \<noteq> []) (py_split nl [] (py_strip staged_out))
        else [])"

definition diff_cmd :: string where
  "diff_cmd = ''git diff --cached --name-only''"

definition staging_failed :: "nat \<Rightarrow> string" where
  "staging_failed n_files =
     ''STAGING FAILED - '' @ str_nat n_files @ '' files exist but 0 staged!''"

definition stage_files ::
  "world \<Rightarrow> string \<Rightarrow> nat \<Rightarrow> event list \<Rightarrow> (string + string list) \<times> event list" where
  \<comment> \<open>Step 5: \<open>Inl\<close> is the message of the failed job, \<open>Inr\<close> the staged files.\<close>
  "stage_files env dir n_files tr =
     (let tr1 = snd (run_cmd env ''git add -A'' (Some dir) 300 tr);
          (r1, tr2) = run_cmd env diff_cmd (Some dir) 300 tr1;
          staged_files = staged_list r1
      in if n_files > 0 \<and> length staged_files = 0
         then
           let tr3 = snd (run_cmd env ''git add .'' (Some dir) 300 tr2);
               tr4 = snd (run_cmd env ''git add --all'' (Some dir) 300 tr3);
               (r2, tr5) = run_cmd env diff_cmd (Some dir) 300 tr4;
               staged_files2 = staged_list r2
           in if n_files > 0 \<and> length staged_files2 = 0
              then (Inl (staging_failed n_files), tr5)
              else (Inr staged_files2, tr5)
         else (Inr staged_files, tr2))"

datatype push_error = FileTooLarge | RateLimited | Network | NonFastForward | Other

definition classify_push_error :: "string \<Rightarrow> push_error" where
  \<comment> \<open>the tests of the \<open>if\<close>/\<open>elif\<close> chain after a failed push, in their order\<close>
  "classify_push_error err =
     (let error_lower = py_lower err
      in if contains error_lower ''large file'' \<or> contains error_lower ''100 mb''
            \<or> contains error_lower ''exceeds''
         then FileTooLarge
         else if contains error_lower ''rate limit'' \<or> contains err ''403'' then RateLimited
         else if contains error_lower ''timeout'' \<or> contains error_lower ''connection''
         then Network
         else if contains error_lower ''non-fast-forward'' then NonFastForward
         else Other)"

fun push_delay :: "push_error \<Rightarrow> nat \<Rightarrow> nat" where
  \<comment> \<open>the argument of \<open>time.sleep\<close> in each branch\<close>
  "push_delay FileTooLarge attempt = 2"
| "push_delay RateLimited attempt = 10 * (attempt + 1)"
| "push_delay Network attempt = 5 * (2 ^ attempt)"
| "push_delay NonFastForward attempt = 1"
| "push_delay Other attempt = 2 * (attempt + 1)"

definition push_cmd :: string where
  "push_cmd = ''git push --set-upstream origin main --force''"

definition react_to_push_error :: "world \<Rightarrow> string \<Rightarrow> nat \<Rightarrow> string \<Rightarrow> event list \<Rightarrow> event list" where
  \<comment> \<open>the branch taken after a failed push: the large-file push first where the error
      says so, then the sleep\<close>
  "react_to_push_error env dir attempt err tr =
     (let cls = classify_push_error err;
          tr1 = (if cls = FileTooLarge
                 then snd (run_cmd env ''git lfs push --all origin main'' (Some dir) 300 tr)
                 else tr)
      in tr1 @ [Sleep (push_delay cls attempt)])"

fun push_attempts ::
  "world \<Rightarrow> string \<Rightarrow> nat list \<Rightarrow> string \<Rightarrow> event list \<Rightarrow> (bool \<times> string) \<times> event list" where
  \<comment> \<open>the loop \<open>for attempt in range(5)\<close>; the string is \<open>err\<close>, which the loop
      overwrites at every attempt; the flag is \<open>push_ok\<close>\<close>
  "push_attempts env dir [] err tr = ((False, err), tr)"
| "push_attempts env dir (attempt # rest) err tr =
     (let ((ok, out, err'), tr1) = run_cmd env push_cmd (Some dir) 600 tr
      in if ok then ((True, err'), tr1)
         else push_attempts env dir rest err' (react_to_push_error env dir attempt err' tr1))"

definition push_failed :: "string \<Rightarrow> string" where
  \<comment> \<open>\<open>f"git push failed after 5 attempts: {err[:80] if err else 'unknown'}"\<close>\<close>
  "push_failed err =
     ''git push failed after 5 attempts: '' @ (if err \<noteq> [] then take 80 err else ''unknown'')"

definition push_with_retry ::
  "world \<Rightarrow> string \<Rightarrow> string \<Rightarrow> event list \<Rightarrow> (string + unit) \<times> event list" where
  \<comment> \<open>the push loop and the test that follows it: \<open>Inl\<close> is the message of the failed job\<close>
  "push_with_retry env dir err tr =
     (let ((push_ok, err'), tr1) = push_attempts env dir [0..<5] err tr
      in if \<not> push_ok then (Inl (push_failed err'), tr1) else (Inr (), tr1))"

definition count_files :: "job_view \<Rightarrow> nat" where
  \<comment> \<open>\<open>sum(1 for _ in dir_path.rglob("*") if _.is_file() and ".git" not in _.parts)\<close>\<close>
  "count_files v =
     length (filter (\<lambda>item. is_file item \<and> \<not> in_git (posix_parts (resolved v)) item) (tree v))"

definition ls_cmd :: string where
  "ls_cmd = ''git diff --cached --name-only HEAD~1 HEAD 2>nul || git ls-tree -r HEAD --name-only''"

definition push_and_verify ::
  "world \<Rightarrow> job_view \<Rightarrow> result \<Rightarrow> string \<Rightarrow> nat \<Rightarrow> string \<Rightarrow> string list \<Rightarrow> event list
     \<Rightarrow> result \<times> event list" where
  \<comment> \<open>Steps 6 to 8 and the check of what was pushed: \<open>n\<close> is \<open>total_files\<close>, \<open>err\<close>
      the variable \<open>err\<close> as step 2 left it.\<close>
  "push_and_verify env v res2 repo_name n err staged_files tr6 =
     (let dir = resolved v;
          commit_msg = ''Auto commit '' @ timestamp v @ '' - ''
                         @ str_nat (length staged_files) @ '' files'';
          tr7 = snd (run_cmd env (''git commit -m '' @ dq @ commit_msg @ dq) (Some dir) 300 tr6);
          tr8 = snd (ensure_github_repo env repo_name tr7);
          tr9 = verify_attempts env repo_name [0..<3] tr8;
          remote_url = github_url repo_name @ ''.git'';
          tr10 = run_all env (Some dir) 300
                   [''git remote remove origin'',
                    ''git remote add origin '' @ remote_url,
                    ''git branch -M main''] tr9
      in case push_with_retry env dir err tr10 of
           (Inl msg, tr11) \<Rightarrow> (res2\<lparr>message := msg\<rparr>, tr11)
         | (Inr u, tr11) \<Rightarrow>
             let (r, tr12) = run_cmd env ls_cmd (Some dir) 300 tr11
             in if fst r \<and> n > 0 \<and> staged_list r = []
                then (res2\<lparr>message := ''EMPTY REPO - '' @ str_nat n
                          @ '' files exist but 0 pushed! Check file sizes.'',
                        result.success := False\<rparr>, tr12)
                else (res2\<lparr>result.success := True,
                        message := ''Success ('' @ str_nat n @ '' files)'',
                        repo_url := github_url repo_name\<rparr>, tr12))"

definition configure_and_stage ::
  "world \<Rightarrow> job_view \<Rightarrow> result \<Rightarrow> string \<Rightarrow> bool \<Rightarrow> nat \<Rightarrow> string \<Rightarrow> event list
     \<Rightarrow> result \<times> event list" where
  \<comment> \<open>From the configuration of the fresh repository to the staging (steps 3 to 5),
      then the rest.\<close>
  "configure_and_stage env v res1 repo_name use_lfs n err tr3 =
     (let dir = resolved v;
          tr4 = run_all env (Some dir) 300
                  [''git config user.name '' @ dq @ GITHUB_USERNAME @ dq,
                   ''git config user.email '' @ dq @ GITHUB_USERNAME
                     @ ''@users.noreply.github.com'' @ dq,
                   ''git config core.autocrlf false'',
                   ''git config http.postBuffer 524288000''] tr3;
          large_files = get_large_files (posix_parts dir) (tree v);
          res2 = res1\<lparr>result.lfs_files := length large_files\<rparr>;
          tr5 = (if large_files \<noteq> [] \<and> use_lfs
                 then snd (setup_git_lfs env dir large_files tr4) else tr4)
      in case stage_files env dir n tr5 of
           (Inl msg, tr6) \<Rightarrow> (res2\<lparr>message := msg\<rparr>, tr6)
         | (Inr staged_files, tr6) \<Rightarrow>
             push_and_verify env v res2 repo_name n err staged_files tr6)"

definition publish ::
  "world \<Rightarrow> job_view \<Rightarrow> result \<Rightarrow> string \<Rightarrow> bool \<Rightarrow> event list \<Rightarrow> result \<times> event list" where
  \<comment> \<open>\<open>process_directory\<close> from the file count on (no walk raises here): the count,
      the removal of every \<open>.git\<close>, the fresh repository, then the rest.\<close>
  "publish env v res repo_name use_lfs tr =
     (let dir = resolved v;
          n = count_files v;
          res1 = res\<lparr>total_files := n\<rparr>;
          tr1 = tr @ map Rmtree (nested_git_dirs v);
          tr2 = (if has_git_dir v then tr1 @ [Rmtree (dir @ ''/.git'')] else tr1);
          ((ok, o1, err), tr3) = run_cmd env ''git init -b main'' (Some dir) 300 tr2
      in if \<not> ok then (res1\<lparr>message := ''git init failed: '' @ err\<rparr>, tr3)
         else configure_and_stage env v res1 repo_name use_lfs n err tr3)"

definition process_directory ::
  "world \<Rightarrow> job_view \<Rightarrow> string \<Rightarrow> bool \<Rightarrow> bool \<Rightarrow> result \<times> event list" where
  \<comment> \<open>\<open>process_directory(dir_path, dry_run, use_lfs)\<close>, with the trace of the job. An
      exception inside the \<open>try\<close> ends the job with the first 100 characters of its text
      as the message.\<close>
  "process_directory env v dir_path dry_run use_lfs =
     (let res = new_result dir_path;
          repo_name = path_to_repo_name (resolved v)
      in if \<not> dir_exists v then (res\<lparr>message := ''Directory does not exist''\<rparr>, [])
         else
           let ((synced, reason), tr) = is_already_synced env v []
           in if synced
              then (res\<lparr>result.success := True, message := ''SKIPPED - '' @ reason,
                      repo_url := github_url repo_name\<rparr>, tr)
              else
                case walk_fault v of
                  Some e \<Rightarrow> (res\<lparr>message := take 100 e\<rparr>, tr)
                | None \<Rightarrow>
                    if dry_run
                    then (res\<lparr>result.success := True, message := ''Dry run - would push'',
                            repo_url := github_url repo_name,
                            result.lfs_files :=
                              length (get_large_files (posix_parts (resolved v)) (tree v))\<rparr>, tr)
                    else publish env v res repo_name use_lfs tr)"

definition worker_task ::
  "world \<Rightarrow> job_view \<Rightarrow> string \<Rightarrow> bool \<Rightarrow> bool \<Rightarrow> stats \<Rightarrow> result \<times> stats" where
  "worker_task env v dir_path dry_run use_lfs st =
     (let res = fst (process_directory env v dir_path dry_run use_lfs)
      in (res, increment_completed (result.success res) (int (result.lfs_files res)) st))"

text \<open>
  A job as the pool receives it: its world, what it sees of its directory, and its path.
  The lock makes the increments of the workers happen one after the other, in the order
  in which the jobs finish; \<open>run_jobs\<close> takes the jobs in that order.
\<close>

type_synonym job = "world \<times> job_view \<times> string"

fun run_jobs :: "bool \<Rightarrow> bool \<Rightarrow> job list \<Rightarrow> stats \<Rightarrow> stats" where
  "run_jobs dry_run use_lfs [] st = st"
| "run_jobs dry_run use_lfs ((env, v, dir_path) # jobs) st =
     run_jobs dry_run use_lfs jobs (snd (worker_task env v dir_path dry_run use_lfs st))"

section \<open>The answers of the world that the claims speak of\<close>

definition push_outcome :: "world \<Rightarrow> event list \<Rightarrow> nat \<Rightarrow> bool \<times> string \<times> string" where
  \<comment> \<open>what the \<open>i\<close>-th push after the trace \<open>tr\<close> returns\<close>
  "push_outcome env tr i = run_cmd_result True (env push_cmd (times_run push_cmd tr + i))"

definition remote_configured :: "world \<Rightarrow> bool" where
  \<comment> \<open>the query for the URL of \<open>origin\<close> succeeds with a non-blank answer\<close>
  "remote_configured env =
     (case run_cmd_result True (env ''git remote get-url origin'' 0) of
        (ok, remote, e) \<Rightarrow> ok \<and> py_strip remote \<noteq> [])"

definition tree_clean :: "world \<Rightarrow> bool" where
  \<comment> \<open>the status query succeeds and lists nothing\<close>
  "tree_clean env =
     (case run_cmd_result True (env ''git status --porcelain'' 0) of
        (ok, status, e) \<Rightarrow> ok \<and> py_strip status = [])"

definition not_ahead :: "world \<Rightarrow> bool" where
  \<comment> \<open>the count of commits of \<open>HEAD\<close> not on \<open>origin/main\<close> succeeds and is 0\<close>
  "not_ahead env =
     (case run_cmd_result True (env ''git rev-list --count origin/main..HEAD 2>nul'' 0) of
        (ok, ahead, e) \<Rightarrow> ok \<and> py_strip ahead = ''0'')"

definition sync_queries :: "string \<Rightarrow> event list" where
  \<comment> \<open>the three read-only queries of the sync check\<close>
  "sync_queries dir =
     [Run ''git remote get-url origin'' (Some dir) 300,
      Run ''git status --porcelain'' (Some dir) 300,
      Run ''git rev-list --count origin/main..HEAD 2>nul'' (Some dir) 300]"

definition diff_outcome :: "world \<Rightarrow> event list \<Rightarrow> nat \<Rightarrow> bool \<times> string \<times> string" where
  \<comment> \<open>what the \<open>i\<close>-th listing of the staged paths after the trace \<open>tr\<close> returns\<close>
  "diff_outcome env tr i = run_cmd_result True (env diff_cmd (times_run diff_cmd tr + i))"




definition in_sync :: "world \<Rightarrow> job_view \<Rightarrow> bool" where
  \<comment> \<open>the condition under which the sync check answers yes\<close>
  "in_sync env v = (has_git_dir v \<and> remote_configured env \<and> tree_clean env \<and> not_ahead env)"

definition init_ok :: "world \<Rightarrow> bool" where
  \<comment> \<open>the fresh repository can be created\<close>
  "init_ok env = fst (run_cmd_result True (env ''git init -b main'' 0))"

definition listing :: "world \<Rightarrow> nat \<Rightarrow> string list" where
  \<comment> \<open>the staged paths read from the \<open>i\<close>-th listing of the job\<close>
  "listing env i = staged_list (run_cmd_result True (env diff_cmd i))"

definition push_result :: "world \<Rightarrow> nat \<Rightarrow> bool \<times> string \<times> string" where
  \<comment> \<open>what the \<open>i\<close>-th push of the job returns\<close>
  "push_result env i = run_cmd_result True (env push_cmd i)"

definition failed_push_events :: "string \<Rightarrow> nat \<Rightarrow> string \<Rightarrow> event list" where
  \<comment> \<open>what one failed attempt leaves in the trace: the push, the large-file push when
      the error is classified so, and the sleep\<close>
  "failed_push_events dir attempt e =
     [Run push_cmd (Some dir) 600]
     @ (if classify_push_error e = FileTooLarge
        then [Run ''git lfs push --all origin main'' (Some dir) 300] else [])
     @ [Sleep (push_delay (classify_push_error e) attempt)]"

definition before_push :: "world \<Rightarrow> job_view \<Rightarrow> string \<Rightarrow> string list \<Rightarrow> event list \<Rightarrow> event list" where
  \<comment> \<open>the trace of a job when its first push starts: after the commit, the check and
      creation of the remote repository, and the wiring of \<open>origin\<close>\<close>
  "before_push env v repo_name staged_files tr6 =
     run_all env (Some (resolved v)) 300
       [''git remote remove origin'',
        ''git remote add origin '' @ (github_url repo_name @ ''.git''),
        ''git branch -M main'']
       (verify_attempts env repo_name [0..<3]
          (snd (ensure_github_repo env repo_name
             (snd (run_cmd env
                (''git commit -m '' @ dq @ (''Auto commit '' @ timestamp v @ '' - ''
                   @ str_nat (length staged_files) @ '' files'') @ dq)
                (Some (resolved v)) 300 tr6)))))"

definition before_staging :: "world \<Rightarrow> job_view \<Rightarrow> bool \<Rightarrow> event list \<Rightarrow> event list" where
  \<comment> \<open>the trace of a job when the staging starts: after the configuration and the
      registration of the large files\<close>
  "before_staging env v use_lfs tr3 =
     (let tr4 = run_all env (Some (resolved v)) 300
                  [''git config user.name '' @ dq @ GITHUB_USERNAME @ dq,
                   ''git config user.email '' @ dq @ GITHUB_USERNAME
                     @ ''@users.noreply.github.com'' @ dq,
                   ''git config core.autocrlf false'',
                   ''git config http.postBuffer 524288000''] tr3;
          large_files = get_large_files (posix_parts (resolved v)) (tree v)
      in if large_files \<noteq> [] \<and> use_lfs
         then snd (setup_git_lfs env (resolved v) large_files tr4) else tr4)"

definition large_count :: "job_view \<Rightarrow> nat" where
  "large_count v = length (get_large_files (posix_parts (resolved v)) (tree v))"

section \<open>Sample worlds\<close>




definition synced_world :: world where
  \<comment> \<open>a repository with a remote, a clean tree and nothing to push\<close>
  "synced_world =
     (\<lambda>cmd k. if cmd = ''git remote get-url origin''
                then Completed 0 (''https://github.com/Michaelunkai/app.git'' @ nl) []
                else if cmd = ''git status --porcelain'' then Completed 0 [] []
                else if cmd = ''git rev-list --count origin/main..HEAD 2>nul''
                then Completed 0 (''0'' @ nl) []
                else Completed 1 [] ''unexpected'')"

definition dirty_world :: world where
  \<comment> \<open>as \<open>synced_world\<close>, with one modified file\<close>
  "dirty_world =
     (\<lambda>cmd k. if cmd = ''git status --porcelain'' then Completed 0 ('' M a.txt'' @ nl) []
                else synced_world cmd k)"

definition sample_view :: job_view where
  "sample_view =
     \<lparr>resolved = ''/work/My App'', dir_exists = True, has_git_dir = True,
      tree = [\<lparr>rel_parts = [''a.txt''], is_file = True, st_size = Some 3\<rparr>],
      nested_git_dirs = [], walk_fault = None, timestamp = ''2024-01-01 00:00:00''\<rparr>"

definition listing_world :: world where
  \<comment> \<open>every command succeeds; the listing of the staged paths shows two files\<close>
  "listing_world =
     (\<lambda>cmd k. if cmd = diff_cmd then Completed 0 (''a.txt'' @ nl @ ''src/b.py'' @ nl) []
                else Completed 0 [] [])"

definition no_push_world :: world where
  \<comment> \<open>as \<open>listing_world\<close>, but every push is refused\<close>
  "no_push_world =
     (\<lambda>cmd k. if cmd = push_cmd then Completed 1 [] ''remote: rate limit''
                else listing_world cmd k)"

definition fresh_view :: job_view where
  \<comment> \<open>a directory without \<open>.git\<close>: two regular files, one directory, one file in a nested
      \<open>.git\<close>\<close>
  "fresh_view =
     \<lparr>resolved = ''/work/fresh'', dir_exists = True, has_git_dir = False,
      tree = [\<lparr>rel_parts = [''a.txt''], is_file = True, st_size = Some 3\<rparr>,
              \<lparr>rel_parts = [''src''], is_file = False, st_size = Some 4096\<rparr>,
              \<lparr>rel_parts = [''src'', ''b.py''], is_file = True, st_size = Some 10\<rparr>,
              \<lparr>rel_parts = [''lib'', ''.git'', ''config''], is_file = True, st_size = Some 5\<rparr>],
      nested_git_dirs = [''/work/fresh/lib/.git''], walk_fault = None,
      timestamp = ''2024-01-01 00:00:00''\<rparr>"

definition empty_view :: job_view where
  \<comment> \<open>an empty directory\<close>
  "empty_view =
     \<lparr>resolved = ''/work/empty'', dir_exists = True, has_git_dir = False,
      tree = [], nested_git_dirs = [], walk_fault = None,
      timestamp = ''2024-01-01 00:00:00''\<rparr>"

section \<open>Properties of the string functions\<close>

lemma rstrip_where_last:
  "rstrip_where P s \<noteq> [] \<Longrightarrow> \<not> P (last (rstrip_where P s))"
  unfolding rstrip_where_def by (simp add: last_rev hd_dropWhile)

lemma rstrip_where_append: "\<exists>t. s = rstrip_where P s @ t"
proof -
  have "rev s = takeWhile P (rev s) @ dropWhile P (rev s)" by simp
  then have "s = rev (dropWhile P (rev s)) @ rev (takeWhile P (rev s))"
    by (metis rev_append rev_rev_ident)
  then show ?thesis unfolding rstrip_where_def by blast
qed

lemma rstrip_where_length: "length (rstrip_where P s) \<le> length s"
  unfolding rstrip_where_def using length_dropWhile_le [of P "rev s"] by simp

lemma rstrip_where_set: "set (rstrip_where P s) \<subseteq> set s"
  unfolding rstrip_where_def using set_dropWhileD by fastforce

lemma rstrip_where_hd: "rstrip_where P s \<noteq> [] \<Longrightarrow> hd (rstrip_where P s) = hd s"
  using rstrip_where_append [of s P] by (metis hd_append2)

lemma rstrip_where_keep: "s \<noteq> [] \<Longrightarrow> \<not> P (last s) \<Longrightarrow> rstrip_where P s = s"
  unfolding rstrip_where_def by (cases "rev s") (auto simp: last_rev)

lemma rstrip_where_nonempty:
  assumes "s \<noteq> []" and "\<not> P (hd s)"
  shows "rstrip_where P s \<noteq> []"
proof -
  from assms obtain c cs where s: "s = c # cs" and c: "\<not> P c" by (cases s) auto
  have "dropWhile P (rev cs @ [c]) \<noteq> []" using c by (simp add: dropWhile_append)
  then show ?thesis unfolding rstrip_where_def s by simp
qed

lemma strip_where_set: "set (strip_where P s) \<subseteq> set s"
  unfolding strip_where_def lstrip_where_def
  using rstrip_where_set set_dropWhileD by fastforce

lemma strip_where_hd: "strip_where P s \<noteq> [] \<Longrightarrow> \<not> P (hd (strip_where P s))"
proof -
  assume ne: "strip_where P s \<noteq> []"
  then have d: "dropWhile P s \<noteq> []"
    unfolding strip_where_def lstrip_where_def rstrip_where_def by (cases "dropWhile P s") simp_all
  have "hd (strip_where P s) = hd (dropWhile P s)"
    using ne unfolding strip_where_def lstrip_where_def by (rule rstrip_where_hd)
  then show ?thesis using d by (simp add: hd_dropWhile)
qed

lemma strip_where_last: "strip_where P s \<noteq> [] \<Longrightarrow> \<not> P (last (strip_where P s))"
  unfolding strip_where_def by (rule rstrip_where_last)

lemma strip_where_none: "\<forall>c \<in> set s. \<not> P c \<Longrightarrow> strip_where P s = s"
proof -
  assume a: "\<forall>c \<in> set s. \<not> P c"
  then have "dropWhile P s = s" by (cases s) auto
  moreover have "dropWhile P (rev s) = rev s" using a by (cases "rev s") auto
  ultimately show ?thesis
    unfolding strip_where_def lstrip_where_def rstrip_where_def by simp
qed

lemma py_split_no_sep:
  "\<not> contains s sep \<Longrightarrow> py_split sep acc s = [rev acc @ s]"
  by (induction s arbitrary: acc) auto

section \<open>Repository names: claim C1\<close>

lemma collapse_dashes_set: "set (collapse_dashes s) \<subseteq> set s"
proof (induction s rule: collapse_dashes.induct)
  case 1
  then show ?case by simp
next
  case (2 c cs)
  then show ?case using set_dropWhileD [of _ is_dash cs] by auto
qed

lemma collapse_dashes_none: "\<forall>c \<in> set s. \<not> is_dash c \<Longrightarrow> collapse_dashes s = s"
  by (induction s) auto

lemma not_word_char_clean:
  assumes "\<not> word_char c" and "valid_char (space_to_dash (py_lower_char c))"
  shows "space_to_dash (py_lower_char c) = CHR ''-''"
proof -
  let ?n = "of_char c :: nat"
  have lt: "?n < 256" by simp
  show ?thesis
  proof (cases "(65 \<le> ?n \<and> ?n \<le> 90) \<or> (192 \<le> ?n \<and> ?n \<le> 222 \<and> ?n \<noteq> 215)")
    case True
    with assms(1) have r: "192 \<le> ?n \<and> ?n \<le> 222" by (auto simp: word_char_def Let_def)
    have l: "py_lower_char c = char_of (?n + 32)" using True by (simp add: py_lower_char_def Let_def)
    have o: "(of_char (py_lower_char c) :: nat) = ?n + 32" using r unfolding l by simp
    have "\<not> valid_char (py_lower_char c)"
      using o r by (auto simp: valid_char_def Let_def)
    moreover have "space_to_dash (py_lower_char c) = py_lower_char c"
      using o r by (auto simp: space_to_dash_def)
    ultimately show ?thesis using assms(2) by simp
  next
    case False
    then have l: "py_lower_char c = c" by (auto simp: py_lower_char_def Let_def)
    show ?thesis using assms l by (auto simp: word_char_def valid_char_def space_to_dash_def Let_def split: if_splits)
  qed
qed

lemma plain_char_lower: "plain_char c \<Longrightarrow> space_to_dash (py_lower_char c) = c"
  by (auto simp: plain_char_def py_lower_char_def space_to_dash_def Let_def)

lemma plain_char_valid: "plain_char c \<Longrightarrow> valid_char c \<and> \<not> is_dash c"
  by (auto simp: plain_char_def valid_char_def is_dash_def Let_def)

lemma truncate_name_length: "length (truncate_name s) \<le> 100"
  unfolding truncate_name_def using rstrip_where_length [of is_dash "take 100 s"] by auto

lemma truncate_name_set: "set (truncate_name s) \<subseteq> set s"
  unfolding truncate_name_def
  using rstrip_where_set [of is_dash "take 100 s"] set_take_subset [of 100 s] by auto

lemma truncate_name_last:
  "truncate_name s \<noteq> [] \<Longrightarrow> \<not> is_dash (last s) \<Longrightarrow> \<not> is_dash (last (truncate_name s))"
  unfolding truncate_name_def using rstrip_where_last [of is_dash "take 100 s"] by (auto split: if_splits)

lemma truncate_name_hd:
  "truncate_name s \<noteq> [] \<Longrightarrow> hd (truncate_name s) = hd s"
  unfolding truncate_name_def using rstrip_where_hd [of is_dash "take 100 s"] by (auto split: if_splits)

lemma truncate_name_nonempty:
  assumes "s \<noteq> []" and "\<not> is_dash (hd s)"
  shows "truncate_name s \<noteq> []"
proof (cases "length s > 100")
  case True
  then have "take 100 s \<noteq> []" and "hd (take 100 s) = hd s" using assms(1) by auto
  then have "rstrip_where is_dash (take 100 s) \<noteq> []"
    using assms(2) rstrip_where_nonempty by metis
  then show ?thesis using True by (simp add: truncate_name_def)
next
  case False
  then show ?thesis using assms(1) by (simp add: truncate_name_def)
qed

lemma clean_name_valid: "\<forall>c \<in> set (clean_name s). valid_char c"
  unfolding clean_name_def using strip_where_set by fastforce

lemma repo_valid: "\<forall>c \<in> set ''repo''. valid_char c"
  by (simp add: valid_char_def)

lemma clean_name_not_word:
  assumes "\<forall>c \<in> set s. \<not> word_char c"
  shows "clean_name s = []"
proof -
  let ?t = "filter valid_char (collapse_dashes (map space_to_dash (py_lower s)))"
  have "\<forall>c \<in> set ?t. is_dash c"
  proof
    fix c assume c: "c \<in> set ?t"
    then have v: "valid_char c" by simp
    from c have "c \<in> set (map space_to_dash (py_lower s))"
      using collapse_dashes_set by fastforce
    then obtain d where "d \<in> set s" and "c = space_to_dash (py_lower_char d)"
      by (auto simp: py_lower_def)
    then show "is_dash c" using assms v not_word_char_clean by (simp add: is_dash_def)
  qed
  then have e: "dropWhile is_dash ?t = []" by (metis dropWhile_eq_Nil_conv)
  show ?thesis
    unfolding clean_name_def strip_where_def lstrip_where_def rstrip_where_def e by simp
qed

lemma clean_name_plain:
  assumes "\<forall>c \<in> set s. plain_char c"
  shows "clean_name s = s"
proof -
  have m: "map space_to_dash (py_lower s) = s"
    using assms by (simp add: py_lower_def plain_char_lower map_idI)
  have nd: "\<forall>c \<in> set s. \<not> is_dash c" using assms plain_char_valid by blast
  have f: "filter valid_char s = s" using assms plain_char_valid by (simp add: filter_id_conv)
  show ?thesis
    unfolding clean_name_def m using nd f by (simp add: collapse_dashes_none strip_where_none)
qed

lemma path_name_plain:
  assumes "s \<noteq> []" and "\<forall>c \<in> set s. plain_char c"
  shows "path_name s = s"
proof -
  have "\<not> contains s ''/''" using assms(2)
    by (induction s) (auto simp: plain_char_def Let_def)
  then have "py_split ''/'' [] s = [s]" using py_split_no_sep [of s "''/''" "[]"] by simp
  moreover have "s \<noteq> ''.''" using assms(2) by (auto simp: plain_char_def Let_def)
  ultimately show ?thesis using assms(1) by (simp add: path_name_def posix_parts_def)
qed

lemma contains_sublist: "contains s p \<longleftrightarrow> sublist p s"
  by (induction s) (auto simp: sublist_Cons_right)

lemma collapse_dashes_Nil: "collapse_dashes s = [] \<longleftrightarrow> s = []"
  by (cases s) auto

lemma collapse_dashes_hd: "s \<noteq> [] \<Longrightarrow> hd (collapse_dashes s) = hd s"
  by (cases s) auto

lemma collapse_dashes_no_run: "\<not> sublist ''--'' (collapse_dashes s)"
proof (induction s rule: collapse_dashes.induct)
  case 1
  then show ?case by simp
next
  case (2 c cs)
  show ?case
  proof (cases "is_dash c")
    case True
    let ?d = "dropWhile is_dash cs"
    have ih: "\<not> sublist ''--'' (collapse_dashes ?d)" using 2(1) True by simp
    have "\<not> prefix ''--'' (c # collapse_dashes ?d)"
    proof (cases "?d = []")
      case True
      then have "collapse_dashes ?d = []" by (simp only: collapse_dashes.simps)
      then show ?thesis by simp
    next
      case False
      then have "\<not> is_dash (hd ?d)" by (simp add: hd_dropWhile)
      then have "hd (collapse_dashes ?d) \<noteq> CHR ''-''"
        using False by (simp add: collapse_dashes_hd is_dash_def)
      moreover have "collapse_dashes ?d \<noteq> []" using False by (simp add: collapse_dashes_Nil)
      ultimately show ?thesis by (cases "collapse_dashes ?d") auto
    qed
    then show ?thesis using ih True by (simp add: sublist_Cons_right)
  next
    case False
    then have "\<not> prefix ''--'' (c # collapse_dashes cs)" by (simp add: is_dash_def)
    then show ?thesis using 2(2) False by (simp add: sublist_Cons_right)
  qed
qed

lemma collapse_dashes_others:
  "filter (\<lambda>c. \<not> is_dash c) (collapse_dashes s) = filter (\<lambda>c. \<not> is_dash c) s"
proof (induction s rule: collapse_dashes.induct)
  case 1
  then show ?case by simp
next
  case (2 c cs)
  have d: "filter (\<lambda>c. \<not> is_dash c) (dropWhile is_dash cs) = filter (\<lambda>c. \<not> is_dash c) cs"
    by (induction cs) auto
  show ?case using 2 d by (cases "is_dash c") simp_all
qed

lemma strip_where_sublist: "sublist (strip_where P s) s"
proof -
  have "sublist (rstrip_where P (dropWhile P s)) (dropWhile P s)"
    unfolding rstrip_where_def by (simp add: sublist_rev_left)
  then show ?thesis
    unfolding strip_where_def lstrip_where_def
    using sublist_dropWhile sublist_order.order.trans by blast
qed

lemma truncate_name_sublist: "sublist (truncate_name s) s"
proof -
  have "sublist (rstrip_where is_dash (take 100 s)) (take 100 s)"
    unfolding rstrip_where_def by (simp add: sublist_rev_left)
  then have "sublist (rstrip_where is_dash (take 100 s)) s"
    using sublist_take sublist_order.order.trans by blast
  then show ?thesis by (simp add: truncate_name_def)
qed

lemma word_char_valid:
  assumes "word_char c \<or> c = CHR '' '' \<or> c = CHR ''-''"
  shows "valid_char (space_to_dash (py_lower_char c))"
proof -
  let ?n = "of_char c :: nat"
  show ?thesis
  proof (cases "65 \<le> ?n \<and> ?n \<le> 90")
    case True
    then have l: "py_lower_char c = char_of (?n + 32)" by (simp add: py_lower_char_def Let_def)
    have o: "(of_char (py_lower_char c) :: nat) = ?n + 32" using True unfolding l by simp
    then have "py_lower_char c \<noteq> CHR '' ''" using True by auto
    then show ?thesis using o True by (auto simp: valid_char_def space_to_dash_def Let_def)
  next
    case False
    then have "py_lower_char c = c" using assms
      by (auto simp: py_lower_char_def word_char_def Let_def)
    then show ?thesis using assms False
      by (auto simp: valid_char_def space_to_dash_def word_char_def Let_def)
  qed
qed

lemma clean_name_no_run:
  assumes "\<forall>c \<in> set seg. word_char c \<or> c = CHR '' '' \<or> c = CHR ''-''"
  shows "\<not> sublist ''--'' (clean_name seg)"
proof -
  let ?t = "map space_to_dash (py_lower seg)"
  have "\<forall>c \<in> set ?t. valid_char c" using assms word_char_valid by (auto simp: py_lower_def)
  then have "\<forall>c \<in> set (collapse_dashes ?t). valid_char c" using collapse_dashes_set by blast
  then have f: "filter valid_char (collapse_dashes ?t) = collapse_dashes ?t"
    by (simp add: filter_id_conv)
  have "sublist (clean_name seg) (collapse_dashes ?t)"
    unfolding clean_name_def f by (rule strip_where_sublist)
  then show ?thesis
    using collapse_dashes_no_run [of ?t] sublist_order.order.trans by blast
qed

lemma repo_name_no_run:
  assumes "\<forall>c \<in> set (path_name p). word_char c \<or> c = CHR '' '' \<or> c = CHR ''-''"
  shows "\<not> contains (path_to_repo_name p) ''--''"
proof -
  let ?n = "truncate_name (clean_name (path_name p))"
  have "\<not> sublist ''--'' ?n"
    using clean_name_no_run [OF assms] truncate_name_sublist sublist_order.order.trans by blast
  moreover have "\<not> sublist ''--'' ''repo''" by (simp add: sublist_Cons_right)
  ultimately show ?thesis
    by (simp add: contains_sublist path_to_repo_name_def Let_def)
qed

text \<open>
  Claim C1. The repository name of a path is its final segment, lowercased, with spaces
  turned into dashes, runs of dashes collapsed, every character outside \<open>[a-z0-9-_]\<close>
  removed, leading and trailing dashes stripped, cut to its first 100 characters with the
  trailing dashes of the cut removed, and \<open>repo\<close> when nothing is left. So the name is
  never empty, has at most 100 characters, all of them valid, and neither starts nor ends
  with a dash. Collapsing leaves no two dashes side by side and touches no other
  character: \<open>a---b\<close> gives \<open>a-b\<close>, and a name whose final segment has only letters,
  digits, underscores, spaces and dashes has no run of dashes at all (the runs are
  collapsed before the invalid characters go, so \<open>a-!-b\<close> gives \<open>a--b\<close>). \<open>My Cool App!!\<close> gives \<open>my-cool-app\<close>; a final segment without a letter, a
  digit or an underscore gives \<open>repo\<close>; a name of more than 100 lowercase letters, digits
  and underscores (150, say) is cut to exactly its first 100 characters.
\<close>

theorem path_to_repo_name_derivation:
  "path_to_repo_name p =
     (let n = truncate_name (strip_where is_dash (filter valid_char
                (collapse_dashes (map space_to_dash (py_lower (path_name p))))))
      in if n = [] then ''repo'' else n)
   \<and> path_to_repo_name p \<noteq> []
   \<and> length (path_to_repo_name p) \<le> 100
   \<and> (\<forall>c \<in> set (path_to_repo_name p). valid_char c)
   \<and> \<not> is_dash (hd (path_to_repo_name p))
   \<and> \<not> is_dash (last (path_to_repo_name p))
   \<and> path_to_repo_name ''My Cool App!!'' = ''my-cool-app''
   \<and> path_to_repo_name ''/home/user/projects/My Cool App!!/'' = ''my-cool-app''
   \<and> path_to_repo_name ''a-!-b'' = ''a--b''
   \<and> path_to_repo_name ''a---b'' = ''a-b''
   \<and> path_to_repo_name ''My   Cool -- App'' = ''my-cool-app''
   \<and> collapse_dashes ''--a---b-c--'' = ''-a-b-c-''
   \<and> \<not> contains (collapse_dashes s) ''--''
   \<and> filter (\<lambda>c. \<not> is_dash c) (collapse_dashes s) = filter (\<lambda>c. \<not> is_dash c) s
   \<and> ((\<forall>c \<in> set (path_name p). word_char c \<or> c = CHR '' '' \<or> c = CHR ''-'') \<longrightarrow>
        \<not> contains (path_to_repo_name p) ''--'')
   \<and> ((\<forall>c \<in> set (path_name p). \<not> word_char c) \<longrightarrow> path_to_repo_name p = ''repo'')
   \<and> ((\<forall>c \<in> set p. plain_char c) \<and> length p > 100 \<longrightarrow>
        path_to_repo_name p = take 100 p \<and> length (path_to_repo_name p) = 100)"
proof -
  let ?c = "clean_name (path_name p)"
  let ?n = "truncate_name ?c"
  have pipeline: "path_to_repo_name p =
     (let n = truncate_name (strip_where is_dash (filter valid_char
                (collapse_dashes (map space_to_dash (py_lower (path_name p))))))
      in if n = [] then ''repo'' else n)"
    by (simp add: path_to_repo_name_def clean_name_def Let_def)
  have r: "path_to_repo_name p = (if ?n \<noteq> [] then ?n else ''repo'')"
    by (simp add: path_to_repo_name_def Let_def)
  have nonempty: "path_to_repo_name p \<noteq> []" using r by simp
  have len: "length (path_to_repo_name p) \<le> 100"
    using r truncate_name_length [of ?c] by simp
  have valid: "\<forall>c \<in> set (path_to_repo_name p). valid_char c"
  proof (cases "?n = []")
    case True
    then show ?thesis using r repo_valid by simp
  next
    case False
    then show ?thesis using r truncate_name_set [of ?c] clean_name_valid [of "path_name p"]
      by auto
  qed
  have first: "\<not> is_dash (hd (path_to_repo_name p))"
  proof (cases "?n = []")
    case True
    then show ?thesis using r by (simp add: is_dash_def)
  next
    case False
    then have "?c \<noteq> []" by (auto simp: truncate_name_def split: if_splits)
    then have "\<not> is_dash (hd ?c)" unfolding clean_name_def by (rule strip_where_hd)
    then show ?thesis using False r truncate_name_hd [of ?c] by simp
  qed
  have final: "\<not> is_dash (last (path_to_repo_name p))"
  proof (cases "?n = []")
    case True
    then show ?thesis using r by (simp add: is_dash_def)
  next
    case False
    then have "?c \<noteq> []" by (auto simp: truncate_name_def split: if_splits)
    then have "\<not> is_dash (last ?c)" unfolding clean_name_def by (rule strip_where_last)
    then show ?thesis using False r truncate_name_last [of ?c] by simp
  qed
  have ex1: "path_to_repo_name ''My Cool App!!'' = ''my-cool-app''" by code_simp
  have ex2: "path_to_repo_name ''/home/user/projects/My Cool App!!/'' = ''my-cool-app''"
    by code_simp
  have ex3: "path_to_repo_name ''a-!-b'' = ''a--b''" by code_simp
  have ex4: "path_to_repo_name ''a---b'' = ''a-b''" by code_simp
  have ex5: "path_to_repo_name ''My   Cool -- App'' = ''my-cool-app''" by code_simp
  have ex6: "collapse_dashes ''--a---b-c--'' = ''-a-b-c-''" by code_simp
  have norun: "\<not> contains (collapse_dashes s) ''--''"
    by (simp add: contains_sublist collapse_dashes_no_run)
  have others: "filter (\<lambda>c. \<not> is_dash c) (collapse_dashes s) = filter (\<lambda>c. \<not> is_dash c) s"
    by (rule collapse_dashes_others)
  have single: "(\<forall>c \<in> set (path_name p). word_char c \<or> c = CHR '' '' \<or> c = CHR ''-'') \<longrightarrow>
        \<not> contains (path_to_repo_name p) ''--''"
    using repo_name_no_run by blast
  have fallback: "(\<forall>c \<in> set (path_name p). \<not> word_char c) \<longrightarrow> path_to_repo_name p = ''repo''"
  proof
    assume "\<forall>c \<in> set (path_name p). \<not> word_char c"
    then have "?c = []" by (rule clean_name_not_word)
    then show "path_to_repo_name p = ''repo''" using r by (simp add: truncate_name_def)
  qed
  have cut: "(\<forall>c \<in> set p. plain_char c) \<and> length p > 100 \<longrightarrow>
        path_to_repo_name p = take 100 p \<and> length (path_to_repo_name p) = 100"
  proof
    assume a: "(\<forall>c \<in> set p. plain_char c) \<and> length p > 100"
    then have ne: "p \<noteq> []" by auto
    have c: "?c = p" using a ne by (simp add: path_name_plain clean_name_plain)
    have t: "take 100 p \<noteq> []" using ne by simp
    have "last (take 100 p) \<in> set p" using t by (meson in_set_takeD last_in_set)
    then have "\<not> is_dash (last (take 100 p))" using a plain_char_valid by blast
    then have "rstrip_where is_dash (take 100 p) = take 100 p"
      using t by (simp add: rstrip_where_keep)
    then have "?n = take 100 p" using a c by (simp add: truncate_name_def)
    then show "path_to_repo_name p = take 100 p \<and> length (path_to_repo_name p) = 100"
      using r t a by simp
  qed
  show ?thesis
    using pipeline nonempty len valid first final ex1 ex2 ex3 ex4 ex5 ex6 norun others single
      fallback cut
    by blast
qed

theorem path_to_repo_name_derivation_witness:
  "path_to_repo_name ''!!!'' = ''repo''
   \<and> path_to_repo_name (replicate 150 (CHR ''a'')) = replicate 100 (CHR ''a'')
   \<and> \<not> contains (path_to_repo_name ''/work/My  Cool--App'') ''--''"
proof -
  have h3: "\<forall>c \<in> set (path_name ''/work/My  Cool--App'').
              word_char c \<or> c = CHR '' '' \<or> c = CHR ''-''"
    by code_simp
  have r3: "\<not> contains (path_to_repo_name ''/work/My  Cool--App'') ''--''"
    using path_to_repo_name_derivation [of "''/work/My  Cool--App''" "[]"] h3 by blast
  have h1: "\<forall>c \<in> set (path_name ''!!!''). \<not> word_char c"
    by (simp add: path_name_def posix_parts_def word_char_def)
  have h2: "(\<forall>c \<in> set (replicate 150 (CHR ''a'')). plain_char c)
            \<and> length (replicate 150 (CHR ''a'')) > 100"
    by (simp add: plain_char_def)
  have "path_to_repo_name ''!!!'' = ''repo''"
    using path_to_repo_name_derivation [of "''!!!''" "[]"] h1 by blast
  moreover have "path_to_repo_name (replicate 150 (CHR ''a'')) = take 100 (replicate 150 (CHR ''a''))"
    using path_to_repo_name_derivation [of "replicate 150 (CHR ''a'')" "[]"] h2 by blast
  ultimately show ?thesis using r3 by simp
qed

section \<open>The command runner: claim C7\<close>

text \<open>
  Claim C7, as the code has it. Whenever the subprocess call returns, times out or raises
  an \<open>Exception\<close>, the runner does not raise and returns a triple: on completion success,
  standard output and standard error, success being true exactly when the exit status
  is zero (the two texts are empty when capturing is off); on a timeout false, the empty
  text and the message \<open>Command timed out\<close>; on any other \<open>Exception\<close> false, the empty
  text and the text of the exception. Only an exception outside \<open>Exception\<close> leaves the
  runner. Inside a job every run returns such a triple and adds one command to the
  trace.
\<close>

theorem run_cmd_total:
  "(\<exists>ok out' err'. run_cmd_call capture (Handled outcome) = Inr (ok, out', err'))
   \<and> run_cmd_call True (Handled (Completed returncode out err)) = Inr (returncode = 0, out, err)
   \<and> run_cmd_call False (Handled (Completed returncode out err)) = Inr (returncode = 0, [], [])
   \<and> run_cmd_call capture (Handled TimeoutExpired) = Inr (False, [], ''Command timed out'')
   \<and> contains ''Command timed out'' ''timed out''
   \<and> run_cmd_call capture (Handled (Raised e)) = Inr (False, [], e)
   \<and> run_cmd_call capture (Escapes e) = Inl e
   \<and> Inr (fst (run_cmd env cmd cwd timeout tr))
        = run_cmd_call True (Handled (env cmd (times_run cmd tr)))
   \<and> snd (run_cmd env cmd cwd timeout tr) = tr @ [Run cmd cwd timeout]"
proof -
  have shape: "\<exists>ok out' err'. run_cmd_call capture (Handled outcome) = Inr (ok, out', err')"
    by (cases outcome) auto
  have timed: "contains ''Command timed out'' ''timed out''" by simp
  show ?thesis using shape timed by (simp add: run_cmd_def)
qed

text \<open>
  The claim as the specification words it fails in two places: the text returned on a
  timeout is \<open>Command timed out\<close>, not \<open>timed out\<close>, and an exception outside
  \<open>Exception\<close>, such as \<open>KeyboardInterrupt\<close>, is not caught.
\<close>

theorem run_cmd_counterexample:
  "run_cmd_call True (Handled TimeoutExpired) \<noteq> Inr (False, [], ''timed out'')
   \<and> run_cmd_call True (Escapes ''KeyboardInterrupt'') = Inl ''KeyboardInterrupt''"
  by simp

section \<open>Large files: claims C6 and C9\<close>

lemma get_lfs_patterns_fold:
  "foldl (\<lambda>patterns f. insert (lfs_pattern f) patterns) acc fs = acc \<union> lfs_pattern ` set fs"
  by (induction fs arbitrary: acc) auto

lemma get_lfs_patterns_image: "get_lfs_patterns fs = lfs_pattern ` set fs"
  by (simp add: get_lfs_patterns_def get_lfs_patterns_fold)

lemma py_lower_Nil_iff: "py_lower s = [] \<longleftrightarrow> s = []"
  by (simp add: py_lower_def)

lemma backslash_to_slash_free: "CHR 0x5C \<notin> set (backslash_to_slash s)"
  by (auto simp: backslash_to_slash_def)

lemma is_large_iff:
  "is_large root item \<longleftrightarrow>
     ''.git'' \<notin> set (root @ rel_parts item) \<and> is_file item \<and>
     (\<exists>n. st_size item = Some n \<and> n > 104857600)"
  by (auto simp: is_large_def in_git_def GITHUB_FILE_LIMIT_def split: option.splits)

text \<open>
  Claim C6. The detector returns, in the order of the walk, one path for each item that is
  outside \<open>.git\<close>, is a regular file and has a size above 100 MiB = 104857600 bytes
  (an item whose size cannot be read is skipped). So a lone file of 100 MiB + 1 byte is
  returned and a lone file of exactly 100 MiB is not. A returned path is the path
  relative to the directory, with forward slashes and no backslash. The patterns are
  exactly the patterns of the detected files: the wildcard \<open>*\<close> followed by the
  (lowercased) extension for a file with an extension, the path itself for a file without.
\<close>

theorem large_file_detection:
  "get_large_files root items =
     map (\<lambda>item. backslash_to_slash (join_parts (rel_parts item)))
       (filter (\<lambda>item. ''.git'' \<notin> set (root @ rel_parts item) \<and> is_file item \<and>
                        (\<exists>n. st_size item = Some n \<and> n > 104857600)) items)
   \<and> (''.git'' \<notin> set (root @ ps) \<longrightarrow>
        get_large_files root [\<lparr>rel_parts = ps, is_file = True, st_size = Some (100 * 1024 * 1024 + 1)\<rparr>]
          = [backslash_to_slash (join_parts ps)])
   \<and> get_large_files root [\<lparr>rel_parts = ps, is_file = True, st_size = Some (100 * 1024 * 1024)\<rparr>] = []
   \<and> get_large_files root [\<lparr>rel_parts = ps, is_file = True, st_size = None\<rparr>] = []
   \<and> (\<forall>f \<in> set (get_large_files root items). CHR 0x5C \<notin> set f)
   \<and> join_parts [''data'', ''raw'', ''big.iso''] = ''data/raw/big.iso''
   \<and> get_lfs_patterns large_files = lfs_pattern ` set large_files
   \<and> (f \<in> set large_files \<and> path_suffix f \<noteq> [] \<longrightarrow>
        ''*'' @ py_lower (path_suffix f) \<in> get_lfs_patterns large_files)
   \<and> (f \<in> set large_files \<and> path_suffix f = [] \<longrightarrow> f \<in> get_lfs_patterns large_files)
   \<and> get_lfs_patterns [''data/big.iso''] = {''*.iso''}
   \<and> get_lfs_patterns [''data/bigfile''] = {''data/bigfile''}"
proof -
  have all: "get_large_files root items =
     map (\<lambda>item. backslash_to_slash (join_parts (rel_parts item)))
       (filter (\<lambda>item. ''.git'' \<notin> set (root @ rel_parts item) \<and> is_file item \<and>
                        (\<exists>n. st_size item = Some n \<and> n > 104857600)) items)"
    unfolding get_large_files_def using is_large_iff by presburger
  have above: "''.git'' \<notin> set (root @ ps) \<longrightarrow>
        get_large_files root [\<lparr>rel_parts = ps, is_file = True, st_size = Some (100 * 1024 * 1024 + 1)\<rparr>]
          = [backslash_to_slash (join_parts ps)]"
    by (simp add: get_large_files_def is_large_iff)
  have exact: "get_large_files root [\<lparr>rel_parts = ps, is_file = True, st_size = Some (100 * 1024 * 1024)\<rparr>] = []"
    by (simp add: get_large_files_def is_large_iff)
  have unread: "get_large_files root [\<lparr>rel_parts = ps, is_file = True, st_size = None\<rparr>] = []"
    by (simp add: get_large_files_def is_large_iff)
  have slashes: "\<forall>f \<in> set (get_large_files root items). CHR 0x5C \<notin> set f"
    unfolding get_large_files_def using backslash_to_slash_free by auto
  have joined: "join_parts [''data'', ''raw'', ''big.iso''] = ''data/raw/big.iso''"
    by (simp add: join_parts_def)
  have img: "get_lfs_patterns large_files = lfs_pattern ` set large_files"
    by (rule get_lfs_patterns_image)
  have ext: "f \<in> set large_files \<and> path_suffix f \<noteq> [] \<longrightarrow>
        ''*'' @ py_lower (path_suffix f) \<in> get_lfs_patterns large_files"
  proof
    assume a: "f \<in> set large_files \<and> path_suffix f \<noteq> []"
    then have "lfs_pattern f = ''*'' @ py_lower (path_suffix f)"
      by (simp add: lfs_pattern_def py_lower_Nil_iff)
    then show "''*'' @ py_lower (path_suffix f) \<in> get_lfs_patterns large_files"
      using a img by (metis imageI)
  qed
  have noext: "f \<in> set large_files \<and> path_suffix f = [] \<longrightarrow> f \<in> get_lfs_patterns large_files"
  proof
    assume a: "f \<in> set large_files \<and> path_suffix f = []"
    then have "lfs_pattern f = f" by (simp add: lfs_pattern_def py_lower_def)
    then show "f \<in> get_lfs_patterns large_files" using a img by (metis imageI)
  qed
  have p1: "lfs_pattern ''data/big.iso'' = ''*.iso''" by code_simp
  have p2: "lfs_pattern ''data/bigfile'' = ''data/bigfile''" by code_simp
  have e1: "get_lfs_patterns [''data/big.iso''] = {''*.iso''}"
    unfolding get_lfs_patterns_image using p1 by simp
  have e2: "get_lfs_patterns [''data/bigfile''] = {''data/bigfile''}"
    unfolding get_lfs_patterns_image using p2 by simp
  show ?thesis
    using all above exact unread slashes joined img ext noext e1 e2 by blast
qed

theorem large_file_detection_witness:
  "get_large_files [''home'', ''u'', ''proj'']
      [\<lparr>rel_parts = [''data'', ''big.iso''], is_file = True, st_size = Some (100 * 1024 * 1024 + 1)\<rparr>]
     = [''data/big.iso'']
   \<and> ''*.iso'' \<in> get_lfs_patterns [''data/big.iso'']
   \<and> ''bigfile'' \<in> get_lfs_patterns [''bigfile'']"
proof -
  have s1: "path_suffix ''data/big.iso'' = ''.iso''" by code_simp
  have s2: "path_suffix ''bigfile'' = []" by code_simp
  have l: "py_lower ''.iso'' = ''.iso''" by code_simp
  have b: "backslash_to_slash (join_parts [''data'', ''big.iso'']) = ''data/big.iso''"
    by (simp add: join_parts_def backslash_to_slash_def)
  have g: "''.git'' \<notin> set ([''home'', ''u'', ''proj''] @ [''data'', ''big.iso''])" by simp
  have "''.git'' \<notin> set ([''home'', ''u'', ''proj''] @ [''data'', ''big.iso'']) \<longrightarrow>
        get_large_files [''home'', ''u'', ''proj'']
          [\<lparr>rel_parts = [''data'', ''big.iso''], is_file = True, st_size = Some (100 * 1024 * 1024 + 1)\<rparr>]
          = [backslash_to_slash (join_parts [''data'', ''big.iso''])]"
    using large_file_detection [of "[''home'', ''u'', ''proj'']" "[]" "[''data'', ''big.iso'']" "[]" "[]"]
    by blast
  then have "get_large_files [''home'', ''u'', ''proj'']
      [\<lparr>rel_parts = [''data'', ''big.iso''], is_file = True, st_size = Some (100 * 1024 * 1024 + 1)\<rparr>]
     = [''data/big.iso'']"
    using g b by simp
  moreover have "''data/big.iso'' \<in> set [''data/big.iso''] \<and> path_suffix ''data/big.iso'' \<noteq> [] \<longrightarrow>
        ''*'' @ py_lower (path_suffix ''data/big.iso'') \<in> get_lfs_patterns [''data/big.iso'']"
    using large_file_detection [of "[]" "[]" "[]" "[''data/big.iso'']" "''data/big.iso''"]
    by blast
  then have "''*.iso'' \<in> get_lfs_patterns [''data/big.iso'']" using s1 l by simp
  moreover have "''bigfile'' \<in> set [''bigfile''] \<and> path_suffix ''bigfile'' = [] \<longrightarrow>
        ''bigfile'' \<in> get_lfs_patterns [''bigfile'']"
    using large_file_detection [of "[]" "[]" "[]" "[''bigfile'']" "''bigfile''"]
    by blast
  then have "''bigfile'' \<in> get_lfs_patterns [''bigfile'']" using s2 by simp
  ultimately show ?thesis by blast
qed

text \<open>
  Claim C9. For a path with an extension the pattern is \<open>*\<close> followed by the lowercased
  extension, so two detected files whose extensions differ only in case give one and the
  same pattern: \<open>a.ISO\<close> and \<open>b.iso\<close> give the single pattern \<open>*.iso\<close>.
\<close>

theorem lfs_pattern_lowercase:
  "(path_suffix f \<noteq> [] \<longrightarrow> lfs_pattern f = ''*'' @ py_lower (path_suffix f))
   \<and> (path_suffix f \<noteq> [] \<and> py_lower (path_suffix f) = py_lower (path_suffix g) \<longrightarrow>
        get_lfs_patterns [f, g] = {''*'' @ py_lower (path_suffix f)})
   \<and> path_suffix ''a.ISO'' = ''.ISO''
   \<and> path_suffix ''b.iso'' = ''.iso''
   \<and> get_lfs_patterns [''a.ISO'', ''b.iso''] = {''*.iso''}"
proof -
  have one: "path_suffix f \<noteq> [] \<longrightarrow> lfs_pattern f = ''*'' @ py_lower (path_suffix f)"
    by (simp add: lfs_pattern_def py_lower_Nil_iff)
  have two: "path_suffix f \<noteq> [] \<and> py_lower (path_suffix f) = py_lower (path_suffix g) \<longrightarrow>
        get_lfs_patterns [f, g] = {''*'' @ py_lower (path_suffix f)}"
  proof
    assume a: "path_suffix f \<noteq> [] \<and> py_lower (path_suffix f) = py_lower (path_suffix g)"
    then have "path_suffix g \<noteq> []" using py_lower_Nil_iff by metis
    then have "lfs_pattern g = ''*'' @ py_lower (path_suffix f)"
      using a by (simp add: lfs_pattern_def py_lower_Nil_iff)
    moreover have "lfs_pattern f = ''*'' @ py_lower (path_suffix f)" using a one by simp
    ultimately show "get_lfs_patterns [f, g] = {''*'' @ py_lower (path_suffix f)}"
      by (simp add: get_lfs_patterns_image)
  qed
  have s1: "path_suffix ''a.ISO'' = ''.ISO''" by code_simp
  have s2: "path_suffix ''b.iso'' = ''.iso''" by code_simp
  have p1: "lfs_pattern ''a.ISO'' = ''*.iso''" by code_simp
  have p2: "lfs_pattern ''b.iso'' = ''*.iso''" by code_simp
  have ex: "get_lfs_patterns [''a.ISO'', ''b.iso''] = {''*.iso''}"
    unfolding get_lfs_patterns_image using p1 p2 by simp
  show ?thesis using one two s1 s2 ex by blast
qed

theorem lfs_pattern_lowercase_witness:
  "get_lfs_patterns [''x.ZIP'', ''y.Zip''] = {''*.zip''}"
proof -
  have s1: "path_suffix ''x.ZIP'' = ''.ZIP''" by code_simp
  have s2: "path_suffix ''y.Zip'' = ''.Zip''" by code_simp
  have l1: "py_lower ''.ZIP'' = ''.zip''" by code_simp
  have l2: "py_lower ''.Zip'' = ''.zip''" by code_simp
  show ?thesis
    using lfs_pattern_lowercase [of "''x.ZIP''" "''y.Zip''"] s1 s2 l1 l2 by simp
qed

section \<open>The one-liner converter: claim C8\<close>











lemma oneliner_text_hd: "oneliner_text ps = [] \<or> hd (oneliner_text ps) = CHR ''g''"
  by (induction ps rule: oneliner_text.induct) auto












section \<open>List files: claim C10\<close>

lemma py_split_nonempty: "py_split sep acc s \<noteq> []"
  by (induction sep acc s rule: py_split.induct) auto

lemma py_split_join:
  "sep \<noteq> [] \<Longrightarrow> join_with sep (py_split sep acc s) = rev acc @ s"
proof (induction sep acc s rule: py_split.induct)
  case (1 sep acc)
  then show ?case by simp
next
  case (2 sep acc c cs)
  show ?case
  proof (cases "prefix sep (c # cs)")
    case True
    then obtain r where r: "c # cs = sep @ r" by (auto simp: prefix_def)
    then have d: "drop (length sep) (c # cs) = r" by (metis append_eq_conv_conj)
    have ih: "join_with sep (py_split sep [] r) = r" using 2 True d by simp
    obtain x xs where sp: "py_split sep [] r = x # xs"
      using py_split_nonempty [of sep "[]" r] by (cases "py_split sep [] r") auto
    have j: "join_with sep (rev acc # x # xs) = rev acc @ sep @ join_with sep (x # xs)" by simp
    have "py_split sep acc (c # cs) = rev acc # py_split sep [] r"
      using True 2(3) d by simp
    then have "join_with sep (py_split sep acc (c # cs)) = rev acc @ sep @ r"
      using j ih sp by simp
    then show ?thesis using r by simp
  next
    case False
    then show ?thesis using 2 by simp
  qed
qed

lemma startswith_gitit:
  assumes "startswith line ''gitit ''"
  shows "line \<noteq> [] \<and> \<not> startswith line ''#''"
  using assms by (cases line) (auto simp: startswith_def)

lemma dirs_of_line_legacy:
  assumes "startswith (py_strip raw) ''gitit ''"
  shows "dirs_of_line raw =
     map (\<lambda>part. py_strip (drop 6 part))
       (filter (\<lambda>part. startswith part ''gitit '') (py_split ''; '' [] (py_strip raw)))"
  using assms startswith_gitit [OF assms] by (simp add: dirs_of_line_def Let_def)

lemma dirs_of_line_single:
  assumes "startswith (py_strip raw) ''gitit ''" and "\<not> contains (py_strip raw) ''; ''"
  shows "dirs_of_line raw = [py_strip (drop 6 (py_strip raw))]"
  using assms py_split_no_sep [of "py_strip raw" "''; ''" "[]"]
  by (simp add: dirs_of_line_legacy)

text \<open>
  Claim C10. A line of the list file that, once stripped, begins with \<open>gitit \<close> is cut at
  the occurrences of the two characters \<open>; \<close> and nowhere else (joining the pieces with
  \<open>; \<close> gives the line back); a piece that does not begin with \<open>gitit \<close> adds nothing,
  each other piece adds what follows its marker, stripped. So a line in which no
  semicolon is followed by a space gives one entry, the rest of the line after the
  first marker: \<open>gitit a;gitit b\<close> gives the single entry \<open>a;gitit b\<close>.
\<close>

theorem legacy_line_split:
  "(startswith (py_strip raw) ''gitit '' \<longrightarrow>
      dirs_of_line raw =
        map (\<lambda>part. py_strip (drop 6 part))
          (filter (\<lambda>part. startswith part ''gitit '') (py_split ''; '' [] (py_strip raw))))
   \<and> join_with ''; '' (py_split ''; '' [] line) = line
   \<and> (\<not> contains line ''; '' \<longrightarrow> py_split ''; '' [] line = [line])
   \<and> (startswith (py_strip raw) ''gitit '' \<and> \<not> contains (py_strip raw) ''; '' \<longrightarrow>
        dirs_of_line raw = [py_strip (drop 6 (py_strip raw))])
   \<and> py_split ''; '' [] ''gitit a;gitit b; x;gitit c; gitit d''
        = [''gitit a;gitit b'', ''x;gitit c'', ''gitit d'']
   \<and> dirs_of_line ''gitit a;gitit b'' = [''a;gitit b'']
   \<and> dirs_of_line ''gitit a; gitit b'' = [''a'', ''b'']
   \<and> dirs_of_line ''gitit a; x; gitit b'' = [''a'', ''b'']
   \<and> read_dirs_from_file [''# list'', [], ''gitit a;gitit b'', ''/p''] = [''a;gitit b'', ''/p'']"
proof -
  have legacy: "startswith (py_strip raw) ''gitit '' \<longrightarrow>
      dirs_of_line raw =
        map (\<lambda>part. py_strip (drop 6 part))
          (filter (\<lambda>part. startswith part ''gitit '') (py_split ''; '' [] (py_strip raw)))"
    using dirs_of_line_legacy by blast
  have joined: "join_with ''; '' (py_split ''; '' [] line) = line"
    using py_split_join [of "''; ''" "[]" line] by simp
  have whole: "\<not> contains line ''; '' \<longrightarrow> py_split ''; '' [] line = [line]"
    using py_split_no_sep [of line "''; ''" "[]"] by simp
  have single: "startswith (py_strip raw) ''gitit '' \<and> \<not> contains (py_strip raw) ''; '' \<longrightarrow>
        dirs_of_line raw = [py_strip (drop 6 (py_strip raw))]"
    using dirs_of_line_single by blast
  have e0: "py_split ''; '' [] ''gitit a;gitit b; x;gitit c; gitit d''
        = [''gitit a;gitit b'', ''x;gitit c'', ''gitit d'']"
    by code_simp
  have e1: "dirs_of_line ''gitit a;gitit b'' = [''a;gitit b'']" by code_simp
  have e2: "dirs_of_line ''gitit a; gitit b'' = [''a'', ''b'']" by code_simp
  have e3: "dirs_of_line ''gitit a; x; gitit b'' = [''a'', ''b'']" by code_simp
  have e4: "read_dirs_from_file [''# list'', [], ''gitit a;gitit b'', ''/p''] = [''a;gitit b'', ''/p'']"
    by code_simp
  show ?thesis using legacy joined whole single e0 e1 e2 e3 e4 by blast
qed

theorem legacy_line_split_witness:
  "dirs_of_line ''  gitit /x/one;gitit /x/two  '' = [''/x/one;gitit /x/two'']"
proof -
  have s: "py_strip ''  gitit /x/one;gitit /x/two  '' = ''gitit /x/one;gitit /x/two''"
    by code_simp
  have h: "startswith (py_strip ''  gitit /x/one;gitit /x/two  '') ''gitit ''
           \<and> \<not> contains (py_strip ''  gitit /x/one;gitit /x/two  '') ''; ''"
    unfolding s by code_simp
  have d: "py_strip (drop 6 ''gitit /x/one;gitit /x/two'') = ''/x/one;gitit /x/two''"
    by code_simp
  have "dirs_of_line ''  gitit /x/one;gitit /x/two  ''
          = [py_strip (drop 6 (py_strip ''  gitit /x/one;gitit /x/two  ''))]"
    using legacy_line_split [of "''  gitit /x/one;gitit /x/two  ''" "[]"] h by blast
  then show ?thesis using s d by simp
qed

section \<open>Shared statistics: claim C3\<close>

lemma increment_completed_fields:
  "completed (increment_completed ok l s) = completed s + 1
   \<and> stats.success (increment_completed ok l s) + failed (increment_completed ok l s)
        = stats.success s + failed s + 1
   \<and> total (increment_completed ok l s) = total s
   \<and> stats.success (increment_completed ok l s) = stats.success s + (if ok then 1 else 0)
   \<and> failed (increment_completed ok l s) = failed s + (if ok then 0 else 1)
   \<and> stats.lfs_files (increment_completed ok l s) = stats.lfs_files s + l"
  by (simp add: increment_completed_def Let_def)

lemma worker_task_fields:
  "completed (snd (worker_task env v p d u s)) = completed s + 1
   \<and> stats.success (snd (worker_task env v p d u s)) + failed (snd (worker_task env v p d u s))
        = stats.success s + failed s + 1
   \<and> total (snd (worker_task env v p d u s)) = total s"
  using increment_completed_fields by (simp add: worker_task_def Let_def)

lemma run_jobs_fields:
  "completed (run_jobs d u jobs s) = completed s + int (length jobs)
   \<and> stats.success (run_jobs d u jobs s) + failed (run_jobs d u jobs s)
        = stats.success s + failed s + int (length jobs)
   \<and> total (run_jobs d u jobs s) = total s"
proof (induction jobs arbitrary: s)
  case Nil
  then show ?case by simp
next
  case (Cons j jobs)
  obtain env v p where j: "j = (env, v, p)" by (cases j) auto
  show ?case
    unfolding j using Cons [of "snd (worker_task env v p d u s)"] worker_task_fields [of env v p d u s]
    by simp
qed

text \<open>
  Claim C3. One worker task adds exactly one to \<open>completed\<close> and exactly one to the sum of
  \<open>success\<close> and \<open>failed\<close>, whatever the job does and however it ends, and leaves
  \<open>total\<close> alone. So with the counters started at zero for a list of jobs, after any
  number \<open>k\<close> of finished jobs (in any order of finishing) \<open>completed\<close> is the number
  of jobs finished, equals \<open>success + failed\<close> and is at most \<open>total\<close>; after all jobs
  \<open>completed\<close> equals \<open>total\<close>.
\<close>

theorem stats_invariant:
  "completed (snd (worker_task env v p dry_run use_lfs s)) = completed s + 1
   \<and> stats.success (snd (worker_task env v p dry_run use_lfs s))
        + failed (snd (worker_task env v p dry_run use_lfs s))
      = stats.success s + failed s + 1
   \<and> stats.success (snd (worker_task env v p dry_run use_lfs s)) = stats.success s
        + (if result.success (fst (process_directory env v p dry_run use_lfs)) then 1 else 0)
   \<and> completed (run_jobs dry_run use_lfs (take k jobs) (new_stats (int (length jobs))))
      = int (min k (length jobs))
   \<and> completed (run_jobs dry_run use_lfs (take k jobs) (new_stats (int (length jobs))))
      = stats.success (run_jobs dry_run use_lfs (take k jobs) (new_stats (int (length jobs))))
        + failed (run_jobs dry_run use_lfs (take k jobs) (new_stats (int (length jobs))))
   \<and> completed (run_jobs dry_run use_lfs (take k jobs) (new_stats (int (length jobs))))
      \<le> total (run_jobs dry_run use_lfs (take k jobs) (new_stats (int (length jobs))))
   \<and> completed (run_jobs dry_run use_lfs jobs (new_stats (int (length jobs))))
      = total (run_jobs dry_run use_lfs jobs (new_stats (int (length jobs))))"
proof -
  let ?s0 = "new_stats (int (length jobs))"
  let ?sk = "run_jobs dry_run use_lfs (take k jobs) ?s0"
  have z: "completed ?s0 = 0 \<and> stats.success ?s0 = 0 \<and> failed ?s0 = 0
           \<and> total ?s0 = int (length jobs)"
    by (simp add: new_stats_def)
  have step: "completed (snd (worker_task env v p dry_run use_lfs s)) = completed s + 1
     \<and> stats.success (snd (worker_task env v p dry_run use_lfs s))
          + failed (snd (worker_task env v p dry_run use_lfs s))
        = stats.success s + failed s + 1"
    using worker_task_fields [of env v p dry_run use_lfs s] by simp
  have succ: "stats.success (snd (worker_task env v p dry_run use_lfs s)) = stats.success s
        + (if result.success (fst (process_directory env v p dry_run use_lfs)) then 1 else 0)"
    using increment_completed_fields by (simp add: worker_task_def Let_def)
  have k: "completed ?sk = int (min k (length jobs))"
    using run_jobs_fields [of dry_run use_lfs "take k jobs" ?s0] z by (simp add: min.commute)
  have inv: "completed ?sk = stats.success ?sk + failed ?sk"
    using run_jobs_fields [of dry_run use_lfs "take k jobs" ?s0] z by simp
  have le: "completed ?sk \<le> total ?sk"
    using run_jobs_fields [of dry_run use_lfs "take k jobs" ?s0] z by simp
  have fin: "completed (run_jobs dry_run use_lfs jobs ?s0) = total (run_jobs dry_run use_lfs jobs ?s0)"
    using run_jobs_fields [of dry_run use_lfs jobs ?s0] z by simp
  show ?thesis using step succ k inv le fin by blast
qed

section \<open>Traces of the workflow\<close>

lemma times_run_append: "times_run cmd (tr @ tr') = times_run cmd tr + times_run cmd tr'"
  by (simp add: times_run_def)

lemma times_run_single:
  "times_run cmd [Run c cwd t] = (if c = cmd then 1 else 0)"
  "times_run cmd [Sleep n] = 0"
  "times_run cmd [Rmtree p] = 0"
  by (simp_all add: times_run_def)

lemma times_run_Nil: "times_run cmd [] = 0"
  by (simp add: times_run_def)

lemma times_run_Cons: "times_run cmd (e # tr) = (if runs cmd e then 1 else 0) + times_run cmd tr"
  by (simp add: times_run_def)

lemma run_cmd_snd: "snd (run_cmd env cmd cwd t tr) = tr @ [Run cmd cwd t]"
  by (simp add: run_cmd_def)

lemma run_cmd_fst: "fst (run_cmd env cmd cwd t tr) = run_cmd_result True (env cmd (times_run cmd tr))"
  by (simp add: run_cmd_def)

lemma push_cmd_not_lfs: "''git lfs push --all origin main'' \<noteq> push_cmd"
  by (simp add: push_cmd_def)

lemma react_times_run:
  "times_run push_cmd (react_to_push_error env dir a e tr) = times_run push_cmd tr"
  using push_cmd_not_lfs
  by (simp add: react_to_push_error_def Let_def run_cmd_snd times_run_append times_run_single)


lemma push_attempts_bound:
  "times_run push_cmd (snd (push_attempts env dir atts err tr))
     \<le> times_run push_cmd tr + length atts"
proof (induction atts arbitrary: err tr)
  case Nil
  then show ?case by simp
next
  case (Cons a atts)
  let ?r = "run_cmd_result True (env push_cmd (times_run push_cmd tr))"
  let ?tr1 = "tr @ [Run push_cmd (Some dir) 600]"
  obtain ok out e where r: "?r = (ok, out, e)" by (cases ?r) auto
  have c1: "times_run push_cmd ?tr1 = times_run push_cmd tr + 1"
    by (simp add: times_run_append times_run_single)
  show ?case
  proof (cases ok)
    case True
    then show ?thesis using r c1 by (simp add: run_cmd_def)
  next
    case False
    have "times_run push_cmd (snd (push_attempts env dir atts e (react_to_push_error env dir a e ?tr1)))
            \<le> times_run push_cmd (react_to_push_error env dir a e ?tr1) + length atts"
      by (rule Cons.IH)
    then show ?thesis using False r c1 by (simp add: run_cmd_def react_times_run)
  qed
qed

lemma push_attempts_all_fail:
  assumes "atts \<noteq> []"
    and "\<forall>i < length atts. \<not> fst (push_outcome env tr i)"
  shows "fst (push_attempts env dir atts err tr)
           = (False, snd (snd (push_outcome env tr (length atts - 1))))
         \<and> times_run push_cmd (snd (push_attempts env dir atts err tr))
           = times_run push_cmd tr + length atts"
  using assms
proof (induction atts arbitrary: err tr)
  case Nil
  then show ?case by simp
next
  case (Cons a atts)
  let ?r = "run_cmd_result True (env push_cmd (times_run push_cmd tr))"
  let ?tr1 = "tr @ [Run push_cmd (Some dir) 600]"
  obtain ok out e where r: "?r = (ok, out, e)" by (cases ?r) auto
  have "\<not> fst (push_outcome env tr 0)" using Cons.prems(2) by simp
  then have nok: "\<not> ok" using r by (simp add: push_outcome_def)
  let ?tr2 = "react_to_push_error env dir a e ?tr1"
  have c2: "times_run push_cmd ?tr2 = times_run push_cmd tr + 1"
    by (simp add: react_times_run times_run_append times_run_single)
  have step: "push_attempts env dir (a # atts) err tr = push_attempts env dir atts e ?tr2"
    using r nok by (simp add: run_cmd_def)
  have shift: "\<And>i. push_outcome env ?tr2 i = push_outcome env tr (Suc i)"
    by (simp add: push_outcome_def c2)
  show ?case
  proof (cases "atts = []")
    case True
    then show ?thesis using step c2 r by (simp add: push_outcome_def)
  next
    case False
    have "\<forall>i < length atts. \<not> fst (push_outcome env ?tr2 i)"
      using Cons.prems(2) shift by auto
    then have "fst (push_attempts env dir atts e ?tr2)
           = (False, snd (snd (push_outcome env ?tr2 (length atts - 1))))
         \<and> times_run push_cmd (snd (push_attempts env dir atts e ?tr2))
           = times_run push_cmd ?tr2 + length atts"
      using Cons.IH [OF False] by blast
    moreover have "Suc (length atts - 1) = length atts" using False by (cases atts) auto
    ultimately show ?thesis using step c2 shift by simp
  qed
qed

lemma push_attempts_first_success:
  assumes "k < length atts"
    and "fst (push_outcome env tr k)"
    and "\<forall>i < k. \<not> fst (push_outcome env tr i)"
  shows "fst (fst (push_attempts env dir atts err tr))
         \<and> times_run push_cmd (snd (push_attempts env dir atts err tr))
           = times_run push_cmd tr + k + 1
         \<and> last (snd (push_attempts env dir atts err tr)) = Run push_cmd (Some dir) 600"
  using assms
proof (induction atts arbitrary: k err tr)
  case Nil
  then show ?case by simp
next
  case (Cons a atts)
  let ?r = "run_cmd_result True (env push_cmd (times_run push_cmd tr))"
  let ?tr1 = "tr @ [Run push_cmd (Some dir) 600]"
  obtain ok out e where r: "?r = (ok, out, e)" by (cases ?r) auto
  show ?case
  proof (cases k)
    case 0
    then have "ok" using Cons.prems(2) r by (simp add: push_outcome_def)
    then show ?thesis using r 0 by (simp add: run_cmd_def times_run_append times_run_single)
  next
    case (Suc k')
    then have "\<not> fst (push_outcome env tr 0)" using Cons.prems(3) by simp
    then have nok: "\<not> ok" using r by (simp add: push_outcome_def)
    let ?tr2 = "react_to_push_error env dir a e ?tr1"
    have c2: "times_run push_cmd ?tr2 = times_run push_cmd tr + 1"
      by (simp add: react_times_run times_run_append times_run_single)
    have step: "push_attempts env dir (a # atts) err tr = push_attempts env dir atts e ?tr2"
      using r nok by (simp add: run_cmd_def)
    have shift: "\<And>i. push_outcome env ?tr2 i = push_outcome env tr (Suc i)"
      by (simp add: push_outcome_def c2)
    have a1: "k' < length atts" using Cons.prems(1) Suc by simp
    have a2: "fst (push_outcome env ?tr2 k')" using Cons.prems(2) Suc shift by simp
    have a3: "\<forall>i < k'. \<not> fst (push_outcome env ?tr2 i)" using Cons.prems(3) Suc shift by auto
    show ?thesis using Cons.IH [OF a1 a2 a3, of e] step c2 Suc by simp
  qed
qed

lemma is_already_synced_iff:
  "fst (fst (is_already_synced env v [])) \<longleftrightarrow>
     has_git_dir v \<and> remote_configured env \<and> tree_clean env \<and> not_ahead env"
  by (auto simp: is_already_synced_def run_cmd_def times_run_def remote_configured_def
        tree_clean_def not_ahead_def Let_def split: prod.splits)

lemma is_already_synced_yes:
  assumes "has_git_dir v" "remote_configured env" "tree_clean env" "not_ahead env"
  shows "is_already_synced env v [] = ((True, ''Already synced''), sync_queries (resolved v))"
  using assms
  by (auto simp: is_already_synced_def run_cmd_def times_run_def remote_configured_def
        tree_clean_def not_ahead_def sync_queries_def Let_def split: prod.splits)

lemma is_already_synced_reason:
  "fst (is_already_synced env v []) =
     (if \<not> has_git_dir v then (False, ''No .git'')
      else if \<not> remote_configured env then (False, ''No remote'')
      else if tree_clean env \<and> not_ahead env then (True, ''Already synced'')
      else (False, ''Has changes''))"
  by (auto simp: is_already_synced_def run_cmd_def times_run_def remote_configured_def
        tree_clean_def not_ahead_def Let_def split: prod.splits)

lemma stage_files_result:
  "fst (stage_files env dir n tr) =
     (if n > 0 \<and> staged_list (diff_outcome env tr 0) = []
      then if staged_list (diff_outcome env tr 1) = []
           then Inl (staging_failed n) else Inr (staged_list (diff_outcome env tr 1))
      else Inr (staged_list (diff_outcome env tr 0)))"
  by (simp add: stage_files_def run_cmd_def diff_outcome_def diff_cmd_def Let_def
        times_run_append times_run_Cons times_run_Nil split: prod.splits)

lemma stage_files_trace:
  "snd (stage_files env dir n tr) =
     (if n > 0 \<and> staged_list (diff_outcome env tr 0) = []
      then tr @ [Run ''git add -A'' (Some dir) 300, Run diff_cmd (Some dir) 300,
                 Run ''git add .'' (Some dir) 300, Run ''git add --all'' (Some dir) 300,
                 Run diff_cmd (Some dir) 300]
      else tr @ [Run ''git add -A'' (Some dir) 300, Run diff_cmd (Some dir) 300])"
  by (simp add: stage_files_def run_cmd_def diff_outcome_def diff_cmd_def Let_def
        times_run_append times_run_Cons times_run_Nil split: prod.splits)



lemma run_all_grows: "set tr \<subseteq> set (run_all env cwd t cmds tr)"
proof (induction cmds arbitrary: tr)
  case Nil
  then show ?case by (simp add: run_all_def)
next
  case (Cons c cmds)
  have "set (tr @ [Run c cwd t]) \<subseteq> set (run_all env cwd t cmds (tr @ [Run c cwd t]))"
    by (rule Cons.IH)
  then show ?case by (simp add: run_all_def run_cmd_snd)
qed

lemma setup_git_lfs_grows: "set tr \<subseteq> set (snd (setup_git_lfs env dir fs tr))"
proof -
  have a: "\<And>t c. set tr \<subseteq> set t \<Longrightarrow> set tr \<subseteq> set (run_all env (Some dir) 300 c t)"
    using run_all_grows by blast
  show ?thesis
    by (auto simp: setup_git_lfs_def run_cmd_def Let_def split: prod.splits
          intro!: a [THEN subsetD])
qed

lemma create_attempts_grows: "set tr \<subseteq> set (snd (create_attempts env repo atts tr))"
proof (induction atts arbitrary: tr)
  case Nil
  then show ?case by simp
next
  case (Cons a atts)
  let ?r = "run_cmd_result True (env (create_cmd repo) (times_run (create_cmd repo) tr))"
  obtain ok out e where r: "?r = (ok, out, e)" by (cases ?r) auto
  have "set (tr @ [Run (create_cmd repo) None 60] @ [Sleep (2 * (a + 1))])
          \<subseteq> set (snd (create_attempts env repo atts
                (tr @ [Run (create_cmd repo) None 60] @ [Sleep (2 * (a + 1))])))"
    by (rule Cons.IH)
  then show ?case using r by (auto simp: run_cmd_def)
qed

lemma ensure_github_repo_grows: "set tr \<subseteq> set (snd (ensure_github_repo env repo tr))"
proof -
  let ?tr1 = "tr @ [Run (view_cmd repo) None 30]"
  have "set ?tr1 \<subseteq> set (snd (create_attempts env repo [0..<3] ?tr1))"
    by (rule create_attempts_grows)
  then show ?thesis
    by (auto simp: ensure_github_repo_def run_cmd_def Let_def split: prod.splits)
qed

lemma verify_attempts_grows: "set tr \<subseteq> set (verify_attempts env repo atts tr)"
proof (induction atts arbitrary: tr)
  case Nil
  then show ?case by simp
next
  case (Cons a atts)
  let ?r = "run_cmd_result True (env (view_cmd repo) (times_run (view_cmd repo) tr))"
  obtain ok out e where r: "?r = (ok, out, e)" by (cases ?r) auto
  have "set (tr @ [Run (view_cmd repo) None 15] @ [Sleep 2])
          \<subseteq> set (verify_attempts env repo atts (tr @ [Run (view_cmd repo) None 15] @ [Sleep 2]))"
    by (rule Cons.IH)
  then show ?case using r by (auto simp: run_cmd_def)
qed

lemma stage_files_grows: "set tr \<subseteq> set (snd (stage_files env dir n tr))"
  by (auto simp: stage_files_trace)

lemma react_grows: "set tr \<subseteq> set (react_to_push_error env dir a e tr)"
  by (auto simp: react_to_push_error_def run_cmd_def Let_def)

lemma push_attempts_grows: "set tr \<subseteq> set (snd (push_attempts env dir atts err tr))"
proof (induction atts arbitrary: err tr)
  case Nil
  then show ?case by simp
next
  case (Cons a atts)
  let ?r = "run_cmd_result True (env push_cmd (times_run push_cmd tr))"
  let ?tr1 = "tr @ [Run push_cmd (Some dir) 600]"
  obtain ok out e where r: "?r = (ok, out, e)" by (cases ?r) auto
  have "set (react_to_push_error env dir a e ?tr1)
          \<subseteq> set (snd (push_attempts env dir atts e (react_to_push_error env dir a e ?tr1)))"
    by (rule Cons.IH)
  moreover have "set tr \<subseteq> set (react_to_push_error env dir a e ?tr1)"
    using react_grows [of ?tr1] by auto
  ultimately show ?case using r by (auto simp: run_cmd_def)
qed

lemma push_with_retry_grows: "set tr \<subseteq> set (snd (push_with_retry env dir err tr))"
  using push_attempts_grows [of tr env dir "[0..<5]" err]
  by (auto simp: push_with_retry_def Let_def split: prod.splits)

lemma keeps:
  "x \<in> set tr \<Longrightarrow> x \<in> set (run_all env cwd t cmds tr)"
  "x \<in> set tr \<Longrightarrow> x \<in> set (snd (setup_git_lfs env dir fs tr))"
  "x \<in> set tr \<Longrightarrow> x \<in> set (snd (ensure_github_repo env repo tr))"
  "x \<in> set tr \<Longrightarrow> x \<in> set (verify_attempts env repo atts tr)"
  "x \<in> set tr \<Longrightarrow> x \<in> set (snd (stage_files env dir n tr))"
  "x \<in> set tr \<Longrightarrow> x \<in> set (snd (push_with_retry env dir err tr))"
  "x \<in> set tr \<Longrightarrow> x \<in> set (snd (run_cmd env cmd cwd t tr))"
proof -
  show "x \<in> set tr \<Longrightarrow> x \<in> set (run_all env cwd t cmds tr)"
    using run_all_grows [of tr env cwd t cmds] by (rule subsetD)
  show "x \<in> set tr \<Longrightarrow> x \<in> set (snd (setup_git_lfs env dir fs tr))"
    using setup_git_lfs_grows [of tr env dir fs] by (rule subsetD)
  show "x \<in> set tr \<Longrightarrow> x \<in> set (snd (ensure_github_repo env repo tr))"
    using ensure_github_repo_grows [of tr env repo] by (rule subsetD)
  show "x \<in> set tr \<Longrightarrow> x \<in> set (verify_attempts env repo atts tr)"
    using verify_attempts_grows [of tr env repo atts] by (rule subsetD)
  show "x \<in> set tr \<Longrightarrow> x \<in> set (snd (stage_files env dir n tr))"
    using stage_files_grows [of tr env dir n] by (rule subsetD)
  show "x \<in> set tr \<Longrightarrow> x \<in> set (snd (push_with_retry env dir err tr))"
    using push_with_retry_grows [of tr env dir err] by (rule subsetD)
  show "x \<in> set tr \<Longrightarrow> x \<in> set (snd (run_cmd env cmd cwd t tr))"
    by (simp add: run_cmd_snd)
qed

lemma push_and_verify_keeps:
  assumes "x \<in> set tr"
  shows "x \<in> set (snd (push_and_verify env v res repo n err staged tr))"
proof -
  let ?dir = "resolved v"
  define tr7 where "tr7 = snd (run_cmd env (''git commit -m '' @ dq @ (''Auto commit '' @ timestamp v @ '' - ''
                         @ str_nat (length staged) @ '' files'') @ dq) (Some ?dir) 300 tr)"
  define tr8 where "tr8 = snd (ensure_github_repo env repo tr7)"
  define tr9 where "tr9 = verify_attempts env repo [0..<3] tr8"
  define tr10 where "tr10 = run_all env (Some ?dir) 300
                   [''git remote remove origin'',
                    ''git remote add origin '' @ (github_url repo @ ''.git''),
                    ''git branch -M main''] tr9"
  define p where "p = push_with_retry env ?dir err tr10"
  have "x \<in> set tr7" unfolding tr7_def using assms by (rule keeps)
  then have "x \<in> set tr8" unfolding tr8_def by (rule keeps)
  then have "x \<in> set tr9" unfolding tr9_def by (rule keeps)
  then have "x \<in> set tr10" unfolding tr10_def by (rule keeps)
  then have x11: "x \<in> set (snd p)" unfolding p_def by (rule keeps)
  have e: "push_and_verify env v res repo n err staged tr =
          (case p of
             (Inl msg, tr11) \<Rightarrow> (res\<lparr>message := msg\<rparr>, tr11)
           | (Inr u, tr11) \<Rightarrow>
               let (r, tr12) = run_cmd env ls_cmd (Some ?dir) 300 tr11
               in if fst r \<and> n > 0 \<and> staged_list r = []
                  then (res\<lparr>message := ''EMPTY REPO - '' @ str_nat n
                            @ '' files exist but 0 pushed! Check file sizes.'',
                          result.success := False\<rparr>, tr12)
                  else (res\<lparr>result.success := True,
                          message := ''Success ('' @ str_nat n @ '' files)'',
                          repo_url := github_url repo\<rparr>, tr12))"
    by (simp only: push_and_verify_def Let_def p_def tr10_def tr9_def tr8_def tr7_def)
  obtain a t where p: "p = (a, t)" by (cases p) auto
  have "x \<in> set (snd (push_and_verify env v res repo n err staged tr))"
  proof (cases a)
    case (Inl msg)
    then show ?thesis using x11 p unfolding e by simp
  next
    case (Inr u)
    then show ?thesis using x11 p unfolding e by (simp add: run_cmd_def split_beta)
  qed
  then show ?thesis .
qed

lemma configure_and_stage_keeps:
  assumes "x \<in> set tr"
  shows "x \<in> set (snd (configure_and_stage env v res repo use_lfs n err tr))"
proof -
  let ?dir = "resolved v"
  define tr4 where "tr4 = run_all env (Some ?dir) 300
                  [''git config user.name '' @ dq @ GITHUB_USERNAME @ dq,
                   ''git config user.email '' @ dq @ GITHUB_USERNAME
                     @ ''@users.noreply.github.com'' @ dq,
                   ''git config core.autocrlf false'',
                   ''git config http.postBuffer 524288000''] tr"
  define lf where "lf = get_large_files (posix_parts ?dir) (tree v)"
  define tr5 where "tr5 = (if lf \<noteq> [] \<and> use_lfs then snd (setup_git_lfs env ?dir lf tr4) else tr4)"
  define st where "st = stage_files env ?dir n tr5"
  have "x \<in> set tr4" unfolding tr4_def using assms by (rule keeps)
  then have "x \<in> set tr5" unfolding tr5_def using keeps(2) by simp
  then have x6: "x \<in> set (snd st)" unfolding st_def by (rule keeps)
  have e: "configure_and_stage env v res repo use_lfs n err tr =
          (case st of
             (Inl msg, tr6) \<Rightarrow> (res\<lparr>result.lfs_files := length lf, message := msg\<rparr>, tr6)
           | (Inr staged, tr6) \<Rightarrow>
               push_and_verify env v (res\<lparr>result.lfs_files := length lf\<rparr>) repo n err staged tr6)"
    by (simp only: configure_and_stage_def Let_def st_def tr5_def lf_def tr4_def)
  obtain a t where p: "st = (a, t)" by (cases st) auto
  show ?thesis
  proof (cases a)
    case (Inl msg)
    then show ?thesis using x6 p unfolding e by simp
  next
    case (Inr staged)
    then show ?thesis using x6 p push_and_verify_keeps unfolding e by simp
  qed
qed

lemma publish_runs_init:
  "Run ''git init -b main'' (Some (resolved v)) 300 \<in> set (snd (publish env v res repo use_lfs tr))"
proof -
  let ?i = "Run ''git init -b main'' (Some (resolved v)) 300"
  define tr2 where "tr2 = (if has_git_dir v
      then (tr @ map Rmtree (nested_git_dirs v)) @ [Rmtree (resolved v @ ''/.git'')]
      else tr @ map Rmtree (nested_git_dirs v))"
  define r where "r = run_cmd env ''git init -b main'' (Some (resolved v)) 300 tr2"
  have i: "?i \<in> set (snd r)" unfolding r_def by (simp add: run_cmd_snd)
  have e: "publish env v res repo use_lfs tr =
          (if \<not> fst (fst r)
           then (res\<lparr>total_files := count_files v,
                      message := ''git init failed: '' @ snd (snd (fst r))\<rparr>, snd r)
           else configure_and_stage env v (res\<lparr>total_files := count_files v\<rparr>) repo use_lfs
                  (count_files v) (snd (snd (fst r))) (snd r))"
    by (simp only: publish_def Let_def r_def tr2_def split_beta)
  show ?thesis using i configure_and_stage_keeps unfolding e by simp
qed

subsection \<open>The result of the push loop\<close>

lemma push_with_retry_bound:
  "times_run push_cmd (snd (push_with_retry env dir err tr)) \<le> times_run push_cmd tr + 5"
proof -
  obtain b e t where p: "push_attempts env dir [0..<5] err tr = ((b, e), t)"
    by (cases "push_attempts env dir [0..<5] err tr") auto
  have "times_run push_cmd t \<le> times_run push_cmd tr + 5"
    using push_attempts_bound [of env dir "[0..<5]" err tr] p by simp
  then show ?thesis by (simp add: push_with_retry_def p)
qed

lemma push_with_retry_success:
  assumes "k < 5" and "fst (push_outcome env tr k)"
    and "\<forall>i < k. \<not> fst (push_outcome env tr i)"
  shows "fst (push_with_retry env dir err tr) = Inr ()
         \<and> times_run push_cmd (snd (push_with_retry env dir err tr)) = times_run push_cmd tr + k + 1
         \<and> last (snd (push_with_retry env dir err tr)) = Run push_cmd (Some dir) 600"
proof -
  obtain b e t where p: "push_attempts env dir [0..<5] err tr = ((b, e), t)"
    by (cases "push_attempts env dir [0..<5] err tr") auto
  have k: "k < length [0..<5]" using assms(1) by simp
  have "b \<and> times_run push_cmd t = times_run push_cmd tr + k + 1
        \<and> last t = Run push_cmd (Some dir) 600"
    using push_attempts_first_success [OF k assms(2) assms(3), of dir err] p by simp
  then show ?thesis by (simp add: push_with_retry_def p)
qed

lemma push_with_retry_failure:
  assumes "\<forall>i < 5. \<not> fst (push_outcome env tr i)"
  shows "fst (push_with_retry env dir err tr) = Inl (push_failed (snd (snd (push_outcome env tr 4))))
         \<and> times_run push_cmd (snd (push_with_retry env dir err tr)) = times_run push_cmd tr + 5"
proof -
  obtain b e t where p: "push_attempts env dir [0..<5] err tr = ((b, e), t)"
    by (cases "push_attempts env dir [0..<5] err tr") auto
  have ne: "[0..<5] \<noteq> []" by simp
  have a: "\<forall>i < length [0..<5]. \<not> fst (push_outcome env tr i)" using assms by simp
  have "(b, e) = (False, snd (snd (push_outcome env tr (length [0..<5] - 1))))
        \<and> times_run push_cmd t = times_run push_cmd tr + length [0..<5]"
    using push_attempts_all_fail [OF ne a, of dir err] p by simp
  then show ?thesis by (simp add: push_with_retry_def p)
qed





subsection \<open>The trace of the push loop\<close>

lemma react_events:
  "react_to_push_error env dir a e (tr @ [Run push_cmd (Some dir) 600])
     = tr @ failed_push_events dir a e"
  by (simp add: react_to_push_error_def failed_push_events_def Let_def run_cmd_snd)

lemma upt_shift: "map f [0..<Suc n] = f 0 # map (\<lambda>j. f (Suc j)) [0..<n]"
  by (simp add: upt_rec [of 0] map_Suc_upt [symmetric] del: upt_Suc)

lemma push_attempts_trace_fail:
  assumes "\<forall>j < length atts. \<not> fst (push_outcome env tr j)"
  shows "snd (push_attempts env dir atts err tr)
           = tr @ concat (map (\<lambda>j. failed_push_events dir (atts ! j)
                                    (snd (snd (push_outcome env tr j)))) [0..<length atts])"
  using assms
proof (induction atts arbitrary: err tr)
  case Nil
  then show ?case by simp
next
  case (Cons a atts)
  let ?r = "run_cmd_result True (env push_cmd (times_run push_cmd tr))"
  let ?tr1 = "tr @ [Run push_cmd (Some dir) 600]"
  obtain ok out e where r: "?r = (ok, out, e)" by (cases ?r) auto
  have "\<not> fst (push_outcome env tr 0)" using Cons.prems by simp
  then have nok: "\<not> ok" using r by (simp add: push_outcome_def)
  have e0: "snd (snd (push_outcome env tr 0)) = e" using r by (simp add: push_outcome_def)
  let ?tr2 = "tr @ failed_push_events dir a e"
  have step: "push_attempts env dir (a # atts) err tr = push_attempts env dir atts e ?tr2"
    using r nok react_events [of env dir a e tr] by (simp add: run_cmd_def)
  have c2: "times_run push_cmd ?tr2 = times_run push_cmd tr + 1"
    using react_times_run [of env dir a e ?tr1] react_events [of env dir a e tr]
    by (simp add: times_run_append times_run_single)
  have shift: "\<And>i. push_outcome env ?tr2 i = push_outcome env tr (Suc i)"
    by (simp add: push_outcome_def c2)
  have "\<forall>j < length atts. \<not> fst (push_outcome env ?tr2 j)"
    using Cons.prems shift by auto
  then have ih: "snd (push_attempts env dir atts e ?tr2)
           = ?tr2 @ concat (map (\<lambda>j. failed_push_events dir (atts ! j)
                                    (snd (snd (push_outcome env ?tr2 j)))) [0..<length atts])"
    by (rule Cons.IH)
  have "map (\<lambda>j. failed_push_events dir ((a # atts) ! j) (snd (snd (push_outcome env tr j))))
          [0..<Suc (length atts)]
        = failed_push_events dir a e
          # map (\<lambda>j. failed_push_events dir (atts ! j) (snd (snd (push_outcome env tr (Suc j)))))
              [0..<length atts]"
    using e0 by (simp add: upt_shift del: upt_Suc)
  then show ?case using step ih shift by (simp del: upt_Suc)
qed

lemma push_attempts_trace_success:
  assumes "k < length atts"
    and "fst (push_outcome env tr k)"
    and "\<forall>i < k. \<not> fst (push_outcome env tr i)"
  shows "snd (push_attempts env dir atts err tr)
           = tr @ concat (map (\<lambda>j. failed_push_events dir (atts ! j)
                                    (snd (snd (push_outcome env tr j)))) [0..<k])
             @ [Run push_cmd (Some dir) 600]"
  using assms
proof (induction atts arbitrary: k err tr)
  case Nil
  then show ?case by simp
next
  case (Cons a atts)
  let ?r = "run_cmd_result True (env push_cmd (times_run push_cmd tr))"
  let ?tr1 = "tr @ [Run push_cmd (Some dir) 600]"
  obtain ok out e where r: "?r = (ok, out, e)" by (cases ?r) auto
  show ?case
  proof (cases k)
    case 0
    then have "ok" using Cons.prems(2) r by (simp add: push_outcome_def)
    then show ?thesis using r 0 by (simp add: run_cmd_def)
  next
    case (Suc k')
    then have "\<not> fst (push_outcome env tr 0)" using Cons.prems(3) by simp
    then have nok: "\<not> ok" using r by (simp add: push_outcome_def)
    have e0: "snd (snd (push_outcome env tr 0)) = e" using r by (simp add: push_outcome_def)
    let ?tr2 = "tr @ failed_push_events dir a e"
    have step: "push_attempts env dir (a # atts) err tr = push_attempts env dir atts e ?tr2"
      using r nok react_events [of env dir a e tr] by (simp add: run_cmd_def)
    have c2: "times_run push_cmd ?tr2 = times_run push_cmd tr + 1"
      using react_times_run [of env dir a e ?tr1] react_events [of env dir a e tr]
      by (simp add: times_run_append times_run_single)
    have shift: "\<And>i. push_outcome env ?tr2 i = push_outcome env tr (Suc i)"
      by (simp add: push_outcome_def c2)
    have a1: "k' < length atts" using Cons.prems(1) Suc by simp
    have a2: "fst (push_outcome env ?tr2 k')" using Cons.prems(2) Suc shift by simp
    have a3: "\<forall>i < k'. \<not> fst (push_outcome env ?tr2 i)" using Cons.prems(3) Suc shift by auto
    have ih: "snd (push_attempts env dir atts e ?tr2)
           = ?tr2 @ concat (map (\<lambda>j. failed_push_events dir (atts ! j)
                                    (snd (snd (push_outcome env ?tr2 j)))) [0..<k'])
             @ [Run push_cmd (Some dir) 600]"
      using Cons.IH [OF a1 a2 a3] by blast
    have "map (\<lambda>j. failed_push_events dir ((a # atts) ! j) (snd (snd (push_outcome env tr j))))
            [0..<Suc k']
          = failed_push_events dir a e
            # map (\<lambda>j. failed_push_events dir (atts ! j) (snd (snd (push_outcome env tr (Suc j)))))
                [0..<k']"
      using e0 by (simp add: upt_shift del: upt_Suc)
    then show ?thesis using step ih shift Suc by (simp del: upt_Suc)
  qed
qed

lemma map_range5:
  "map (\<lambda>j. f ([0..<5] ! j) j) [0..<k] = map (\<lambda>j. f j j) [0..<k]" if "k \<le> 5"
  using that by (intro map_cong) auto

lemma push_with_retry_trace_fail:
  assumes "\<forall>i < 5. \<not> fst (push_outcome env tr i)"
  shows "snd (push_with_retry env dir err tr)
           = tr @ concat (map (\<lambda>i. failed_push_events dir i (snd (snd (push_outcome env tr i))))
                            [0..<5])"
proof -
  have a: "\<forall>j < length [0..<5]. \<not> fst (push_outcome env tr j)" using assms by simp
  have "snd (push_attempts env dir [0..<5] err tr)
          = tr @ concat (map (\<lambda>j. failed_push_events dir ([0..<5] ! j)
                                    (snd (snd (push_outcome env tr j)))) [0..<length [0..<5]])"
    using a by (rule push_attempts_trace_fail)
  moreover have "map (\<lambda>j. failed_push_events dir ([0..<5] ! j) (snd (snd (push_outcome env tr j)))) [0..<5]
      = map (\<lambda>j. failed_push_events dir j (snd (snd (push_outcome env tr j)))) [0..<5]"
    using map_range5 [of 5 "\<lambda>a j. failed_push_events dir a (snd (snd (push_outcome env tr j)))"]
    by simp
  ultimately show ?thesis by (simp add: push_with_retry_def split_beta Let_def)
qed

lemma push_with_retry_trace_success:
  assumes "k < 5" and "fst (push_outcome env tr k)"
    and "\<forall>i < k. \<not> fst (push_outcome env tr i)"
  shows "snd (push_with_retry env dir err tr)
           = tr @ concat (map (\<lambda>i. failed_push_events dir i (snd (snd (push_outcome env tr i))))
                            [0..<k])
             @ [Run push_cmd (Some dir) 600]"
proof -
  have k: "k < length [0..<5]" using assms(1) by simp
  have "snd (push_attempts env dir [0..<5] err tr)
          = tr @ concat (map (\<lambda>j. failed_push_events dir ([0..<5] ! j)
                                    (snd (snd (push_outcome env tr j)))) [0..<k])
            @ [Run push_cmd (Some dir) 600]"
    using k assms(2) assms(3) by (rule push_attempts_trace_success)
  moreover have "map (\<lambda>j. failed_push_events dir ([0..<5] ! j) (snd (snd (push_outcome env tr j)))) [0..<k]
      = map (\<lambda>j. failed_push_events dir j (snd (snd (push_outcome env tr j)))) [0..<k]"
    using map_range5 [of k "\<lambda>a j. failed_push_events dir a (snd (snd (push_outcome env tr j)))"] assms(1)
    by simp
  ultimately show ?thesis by (simp add: push_with_retry_def split_beta Let_def)
qed

lemma delay_rate_limit_word:
  assumes "contains (py_lower e1) ''rate limit''" and "classify_push_error e2 = NonFastForward"
  shows "push_delay (classify_push_error e2) a < push_delay (classify_push_error e1) a"
proof -
  have "classify_push_error e1 = FileTooLarge \<or> classify_push_error e1 = RateLimited"
    using assms(1) by (simp add: classify_push_error_def Let_def)
  then show ?thesis using assms(2) by auto
qed

subsection \<open>Commands that the steps before the push do not run\<close>

lemma times_run_run_all:
  "times_run c (run_all env cwd t cmds tr) = times_run c tr + length (filter (\<lambda>x. x = c) cmds)"
proof (induction cmds arbitrary: tr)
  case Nil
  then show ?case by (simp add: run_all_def)
next
  case (Cons a cmds)
  have "run_all env cwd t (a # cmds) tr = run_all env cwd t cmds (tr @ [Run a cwd t])"
    by (simp add: run_all_def run_cmd_snd)
  then show ?case using Cons [of "tr @ [Run a cwd t]"]
    by (simp add: times_run_append times_run_single)
qed

lemma times_run_sync:
  assumes "c \<noteq> ''git remote get-url origin''" "c \<noteq> ''git status --porcelain''"
    "c \<noteq> ''git rev-list --count origin/main..HEAD 2>nul''"
  shows "times_run c (snd (is_already_synced env v [])) = 0"
  using assms
  by (auto simp: is_already_synced_def run_cmd_def times_run_def Let_def split: prod.splits)

lemma times_run_tracks:
  assumes "\<not> prefix ''git lfs '' c"
  shows "times_run c (run_all env cwd t (map (\<lambda>p. ''git lfs track '' @ dq @ p @ dq) ps) tr)
           = times_run c tr"
proof -
  have "\<forall>x \<in> set (map (\<lambda>p. ''git lfs track '' @ dq @ p @ dq) ps). x \<noteq> c"
    using assms by auto
  then have "filter (\<lambda>x. x = c) (map (\<lambda>p. ''git lfs track '' @ dq @ p @ dq) ps) = []"
    by (simp only: filter_empty_conv)
  then show ?thesis by (simp only: times_run_run_all) simp
qed

lemma times_run_setup_git_lfs:
  assumes "\<not> prefix ''git lfs '' c"
  shows "times_run c (snd (setup_git_lfs env dir fs tr)) = times_run c tr"
proof -
  have i: "''git lfs install --local'' \<noteq> c" using assms by auto
  let ?tr1 = "tr @ [Run ''git lfs install --local'' (Some dir) 300]"
  have c1: "times_run c ?tr1 = times_run c tr"
    using i by (simp add: times_run_append times_run_Cons times_run_Nil)
  show ?thesis
    unfolding setup_git_lfs_def Let_def split_beta run_cmd_snd
    using c1 times_run_tracks [OF assms] by simp
qed

lemma gh_cmds: "prefix ''gh '' (create_cmd repo)" "prefix ''gh '' (view_cmd repo)"
  by (simp_all add: create_cmd_def view_cmd_def)

lemma times_run_create_attempts:
  assumes "\<not> prefix ''gh '' c"
  shows "times_run c (snd (create_attempts env repo atts tr)) = times_run c tr"
proof (induction atts arbitrary: tr)
  case Nil
  then show ?case by simp
next
  case (Cons a atts)
  have n: "create_cmd repo \<noteq> c" using assms gh_cmds(1) by auto
  let ?r = "run_cmd_result True (env (create_cmd repo) (times_run (create_cmd repo) tr))"
  obtain ok out e where r: "?r = (ok, out, e)" by (cases ?r) auto
  have "times_run c (snd (create_attempts env repo atts
            (tr @ [Run (create_cmd repo) None 60] @ [Sleep (2 * (a + 1))])))
          = times_run c (tr @ [Run (create_cmd repo) None 60] @ [Sleep (2 * (a + 1))])"
    by (rule Cons.IH)
  then show ?case using r n
    by (auto simp: run_cmd_def times_run_append times_run_Cons times_run_Nil)
qed

lemma times_run_ensure:
  assumes "\<not> prefix ''gh '' c"
  shows "times_run c (snd (ensure_github_repo env repo tr)) = times_run c tr"
proof -
  have n: "create_cmd repo \<noteq> c" "view_cmd repo \<noteq> c" using assms gh_cmds by auto
  let ?tr1 = "tr @ [Run (view_cmd repo) None 30]"
  have "times_run c (snd (create_attempts env repo [0..<3] ?tr1)) = times_run c ?tr1"
    using assms by (rule times_run_create_attempts)
  then show ?thesis using n
    by (auto simp: ensure_github_repo_def run_cmd_def Let_def times_run_append
          times_run_Cons times_run_Nil split: prod.splits)
qed

lemma times_run_verify:
  assumes "\<not> prefix ''gh '' c"
  shows "times_run c (verify_attempts env repo atts tr) = times_run c tr"
proof (induction atts arbitrary: tr)
  case Nil
  then show ?case by simp
next
  case (Cons a atts)
  have n: "view_cmd repo \<noteq> c" using assms gh_cmds(2) by auto
  let ?r = "run_cmd_result True (env (view_cmd repo) (times_run (view_cmd repo) tr))"
  obtain ok out e where r: "?r = (ok, out, e)" by (cases ?r) auto
  have "times_run c (verify_attempts env repo atts (tr @ [Run (view_cmd repo) None 15] @ [Sleep 2]))
          = times_run c (tr @ [Run (view_cmd repo) None 15] @ [Sleep 2])"
    by (rule Cons.IH)
  then show ?case using r n by (auto simp: run_cmd_def times_run_append times_run_Cons times_run_Nil)
qed

lemma times_run_stage_files_push:
  "times_run push_cmd (snd (stage_files env dir n tr)) = times_run push_cmd tr"
  by (simp add: stage_files_trace times_run_append times_run_Cons times_run_Nil
        push_cmd_def diff_cmd_def)

lemma msg_distinct:
  "push_failed e \<noteq> staging_failed k"
  "''git init failed: '' @ e \<noteq> staging_failed k"
  "''EMPTY REPO - '' @ a \<noteq> staging_failed k"
  "''Success ('' @ a \<noteq> staging_failed k"
  "''SKIPPED - '' @ a \<noteq> staging_failed k"
  "''Directory does not exist'' \<noteq> staging_failed k"
  "''Dry run - would push'' \<noteq> staging_failed k"
  by (simp_all add: push_failed_def staging_failed_def)

subsection \<open>The steps of a job, one after the other\<close>

lemma push_and_verify_eq:
  "push_and_verify env v res repo n err staged tr =
     (case push_with_retry env (resolved v) err (before_push env v repo staged tr) of
        (Inl msg, tr11) \<Rightarrow> (res\<lparr>message := msg\<rparr>, tr11)
      | (Inr u, tr11) \<Rightarrow>
          let (r, tr12) = run_cmd env ls_cmd (Some (resolved v)) 300 tr11
          in if fst r \<and> n > 0 \<and> staged_list r = []
             then (res\<lparr>message := ''EMPTY REPO - '' @ str_nat n
                       @ '' files exist but 0 pushed! Check file sizes.'',
                     result.success := False\<rparr>, tr12)
             else (res\<lparr>result.success := True,
                     message := ''Success ('' @ str_nat n @ '' files)'',
                     repo_url := github_url repo\<rparr>, tr12))"
  by (simp only: push_and_verify_def Let_def before_push_def)

lemma configure_and_stage_eq:
  "configure_and_stage env v res repo use_lfs n err tr =
     (case stage_files env (resolved v) n (before_staging env v use_lfs tr) of
        (Inl msg, tr6) \<Rightarrow> (res\<lparr>result.lfs_files := large_count v, message := msg\<rparr>, tr6)
      | (Inr staged, tr6) \<Rightarrow>
          push_and_verify env v (res\<lparr>result.lfs_files := large_count v\<rparr>) repo n err staged tr6)"
  by (simp only: configure_and_stage_def Let_def before_staging_def large_count_def)

lemma times_run_before_push:
  "times_run push_cmd (before_push env v repo staged tr) = times_run push_cmd tr"
proof -
  have g: "\<not> prefix ''gh '' push_cmd" by (simp add: push_cmd_def)
  have c: "''git commit -m '' @ x \<noteq> push_cmd" for x by (simp add: push_cmd_def)
  have r: "''git remote add origin '' @ x \<noteq> push_cmd" for x by (simp add: push_cmd_def)
  have r2: "''git remote remove origin'' \<noteq> push_cmd" "''git branch -M main'' \<noteq> push_cmd"
    by (simp_all add: push_cmd_def)
  show ?thesis
    unfolding before_push_def
    by (simp add: times_run_run_all times_run_verify [OF g] times_run_ensure [OF g]
          run_cmd_snd times_run_append times_run_Cons times_run_Nil
          c [simplified] r [simplified] r2)
qed

lemma times_run_before_staging:
  assumes "c = push_cmd \<or> c = diff_cmd"
  shows "times_run c (before_staging env v use_lfs tr) = times_run c tr"
proof -
  have l: "\<not> prefix ''git lfs '' c" using assms by (auto simp: push_cmd_def diff_cmd_def)
  have k: "''git config '' @ x \<noteq> c" for x using assms by (auto simp: push_cmd_def diff_cmd_def)
  have f: "filter (\<lambda>x. x = c)
             [''git config user.name '' @ dq @ GITHUB_USERNAME @ dq,
              ''git config user.email '' @ dq @ GITHUB_USERNAME @ ''@users.noreply.github.com'' @ dq,
              ''git config core.autocrlf false'',
              ''git config http.postBuffer 524288000''] = []"
    using k [of "''user.name '' @ dq @ GITHUB_USERNAME @ dq"]
      k [of "''user.email '' @ dq @ GITHUB_USERNAME @ ''@users.noreply.github.com'' @ dq"]
      k [of "''core.autocrlf false''"] k [of "''http.postBuffer 524288000''"]
    by simp
  show ?thesis
    unfolding before_staging_def Let_def
    by (simp only: times_run_setup_git_lfs [OF l] times_run_run_all f if_distrib [of "times_run c"])
       simp
qed

lemma push_and_verify_message:
  "message (fst (push_and_verify env v res repo n err staged tr)) \<noteq> staging_failed k"
proof -
  obtain a t where p: "push_with_retry env (resolved v) err (before_push env v repo staged tr) = (a, t)"
    by (cases "push_with_retry env (resolved v) err (before_push env v repo staged tr)") auto
  show ?thesis
  proof (cases a)
    case (Inl msg)
    then have "msg = push_failed (snd (fst (push_attempts env (resolved v) [0..<5] err
                       (before_push env v repo staged tr))))"
      using p by (auto simp: push_with_retry_def Let_def split_beta split: if_splits)
    then show ?thesis using Inl p msg_distinct(1) by (simp add: push_and_verify_eq)
  next
    case (Inr u)
    then show ?thesis using p msg_distinct(3,4)
      by (simp add: push_and_verify_eq split_beta Let_def)
  qed
qed

lemma push_and_verify_fail:
  assumes "times_run push_cmd tr = 0" and "\<forall>i < 5. \<not> fst (push_result env i)"
  shows "fst (push_and_verify env v res repo n err staged tr)
           = res\<lparr>message := push_failed (snd (snd (push_result env 4)))\<rparr>"
proof -
  let ?t = "before_push env v repo staged tr"
  have z: "times_run push_cmd ?t = 0" using assms(1) by (simp add: times_run_before_push)
  then have o: "\<And>i. push_outcome env ?t i = push_result env i"
    by (simp add: push_outcome_def push_result_def)
  then have "\<forall>i < 5. \<not> fst (push_outcome env ?t i)" using assms(2) by simp
  then have "fst (push_with_retry env (resolved v) err ?t)
               = Inl (push_failed (snd (snd (push_outcome env ?t 4))))"
    using push_with_retry_failure by blast
  then show ?thesis using o
    by (cases "push_with_retry env (resolved v) err ?t") (simp add: push_and_verify_eq)
qed

lemma configure_and_stage_staging:
  assumes "times_run diff_cmd tr = 0"
  shows "((\<exists>k. message (fst (configure_and_stage env v res repo use_lfs n err tr)) = staging_failed k)
           \<longleftrightarrow> n > 0 \<and> listing env 0 = [] \<and> listing env 1 = [])
         \<and> (n > 0 \<and> listing env 0 = [] \<and> listing env 1 = [] \<longrightarrow>
              fst (configure_and_stage env v res repo use_lfs n err tr)
                = res\<lparr>result.lfs_files := large_count v, message := staging_failed n\<rparr>)"
proof -
  let ?t = "before_staging env v use_lfs tr"
  have z: "times_run diff_cmd ?t = 0" using assms by (simp add: times_run_before_staging)
  then have o: "\<And>i. diff_outcome env ?t i = run_cmd_result True (env diff_cmd i)"
    by (simp add: diff_outcome_def)
  have f: "fst (stage_files env (resolved v) n ?t) =
     (if n > 0 \<and> listing env 0 = []
      then if listing env 1 = [] then Inl (staging_failed n) else Inr (listing env 1)
      else Inr (listing env 0))"
    by (simp add: stage_files_result o listing_def)
  obtain a t where p: "stage_files env (resolved v) n ?t = (a, t)"
    by (cases "stage_files env (resolved v) n ?t") auto
  show ?thesis
  proof (cases "n > 0 \<and> listing env 0 = [] \<and> listing env 1 = []")
    case True
    then have "a = Inl (staging_failed n)" using f p by simp
    then show ?thesis using True p by (auto simp: configure_and_stage_eq)
  next
    case False
    then obtain staged where "a = Inr staged" using f p by (auto split: if_splits)
    then show ?thesis using False p push_and_verify_message
      by (auto simp: configure_and_stage_eq)
  qed
qed

lemma configure_and_stage_push_fail:
  assumes "times_run diff_cmd tr = 0" and "times_run push_cmd tr = 0"
    and "\<not> (n > 0 \<and> listing env 0 = [] \<and> listing env 1 = [])"
    and "\<forall>i < 5. \<not> fst (push_result env i)"
  shows "fst (configure_and_stage env v res repo use_lfs n err tr)
           = res\<lparr>result.lfs_files := large_count v,
                 message := push_failed (snd (snd (push_result env 4)))\<rparr>"
proof -
  let ?t = "before_staging env v use_lfs tr"
  have z: "times_run diff_cmd ?t = 0" using assms(1) by (simp add: times_run_before_staging)
  then have o: "\<And>i. diff_outcome env ?t i = run_cmd_result True (env diff_cmd i)"
    by (simp add: diff_outcome_def)
  have f: "fst (stage_files env (resolved v) n ?t) =
     (if n > 0 \<and> listing env 0 = []
      then if listing env 1 = [] then Inl (staging_failed n) else Inr (listing env 1)
      else Inr (listing env 0))"
    by (simp add: stage_files_result o listing_def)
  obtain a t where p: "stage_files env (resolved v) n ?t = (a, t)"
    by (cases "stage_files env (resolved v) n ?t") auto
  obtain staged where a: "a = Inr staged" using f p assms(3) by (auto split: if_splits)
  have "t = snd (stage_files env (resolved v) n ?t)" using p by simp
  then have "times_run push_cmd t = 0"
    using assms(2) by (simp add: times_run_stage_files_push times_run_before_staging)
  then have "fst (push_and_verify env v (res\<lparr>result.lfs_files := large_count v\<rparr>) repo n err staged t)
           = res\<lparr>result.lfs_files := large_count v,
                 message := push_failed (snd (snd (push_result env 4)))\<rparr>"
    using assms(4) by (rule push_and_verify_fail)
  then show ?thesis using a p by (simp add: configure_and_stage_eq)
qed

subsection \<open>The sync check and what follows it\<close>

lemma process_directory_synced:
  assumes "dir_exists v" "has_git_dir v" "remote_configured env" "tree_clean env" "not_ahead env"
  shows "process_directory env v p dry_run use_lfs =
           (new_result p\<lparr>result.success := True, message := ''SKIPPED - Already synced'',
              repo_url := github_url (path_to_repo_name (resolved v))\<rparr>,
            sync_queries (resolved v))"
  using assms is_already_synced_yes [of v env]
  by (simp add: process_directory_def Let_def)

lemma process_directory_not_synced:
  assumes "dir_exists v"
    and "\<not> (has_git_dir v \<and> remote_configured env \<and> tree_clean env \<and> not_ahead env)"
  shows "process_directory env v p dry_run use_lfs =
           (case walk_fault v of
              Some e \<Rightarrow> (new_result p\<lparr>message := take 100 e\<rparr>, snd (is_already_synced env v []))
            | None \<Rightarrow>
                if dry_run
                then (new_result p\<lparr>result.success := True, message := ''Dry run - would push'',
                        repo_url := github_url (path_to_repo_name (resolved v)),
                        result.lfs_files :=
                          length (get_large_files (posix_parts (resolved v)) (tree v))\<rparr>,
                      snd (is_already_synced env v []))
                else publish env v (new_result p) (path_to_repo_name (resolved v)) use_lfs
                       (snd (is_already_synced env v [])))"
proof -
  have "\<not> fst (fst (is_already_synced env v []))"
    using assms(2) is_already_synced_iff by blast
  then show ?thesis
    using assms(1) by (simp add: process_directory_def Let_def split_beta)
qed

subsection \<open>The job as a whole\<close>

lemma times_run_Rmtrees: "times_run c (map Rmtree ps) = 0"
  by (induction ps) (simp_all add: times_run_def)

lemma process_directory_stage:
  assumes "dir_exists v" "\<not> in_sync env v" "walk_fault v = None" "\<not> dry" "init_ok env"
  shows "\<exists>tr err. times_run diff_cmd tr = 0 \<and> times_run push_cmd tr = 0
           \<and> process_directory env v p dry use_lfs
               = configure_and_stage env v (new_result p\<lparr>total_files := count_files v\<rparr>)
                   (path_to_repo_name (resolved v)) use_lfs (count_files v) err tr"
proof -
  let ?s = "snd (is_already_synced env v [])"
  let ?i = "''git init -b main''"
  define tr2 where "tr2 = (if has_git_dir v
     then (?s @ map Rmtree (nested_git_dirs v)) @ [Rmtree (resolved v @ ''/.git'')]
     else ?s @ map Rmtree (nested_git_dirs v))"
  have z: "times_run c ?s = 0" if "c = ?i \<or> c = diff_cmd \<or> c = push_cmd" for c
    using that by (intro times_run_sync) (auto simp: diff_cmd_def push_cmd_def)
  have z2: "times_run c tr2 = 0" if "c = ?i \<or> c = diff_cmd \<or> c = push_cmd" for c
    using z [OF that] by (simp add: tr2_def times_run_Rmtrees times_run_append times_run_Cons times_run_Nil)
  have pd: "process_directory env v p dry use_lfs
              = publish env v (new_result p) (path_to_repo_name (resolved v)) use_lfs ?s"
    using process_directory_not_synced [of v env p dry use_lfs] assms
    by (simp add: in_sync_def)
  have r: "fst (run_cmd env ?i (Some (resolved v)) 300 tr2) = run_cmd_result True (env ?i 0)"
    using z2 [of ?i] by (simp add: run_cmd_fst)
  obtain ok o1 err where e: "run_cmd_result True (env ?i 0) = (ok, o1, err)"
    by (cases "run_cmd_result True (env ?i 0)") auto
  have ok: "ok" using assms(5) e by (simp add: init_ok_def)
  have rc: "run_cmd env ?i (Some (resolved v)) 300 tr2 = ((ok, o1, err), tr2 @ [Run ?i (Some (resolved v)) 300])"
    using r e run_cmd_snd [of env ?i "Some (resolved v)" 300 tr2]
    by (cases "run_cmd env ?i (Some (resolved v)) 300 tr2") simp
  have pb: "publish env v (new_result p) (path_to_repo_name (resolved v)) use_lfs ?s
        = (if \<not> fst (fst (run_cmd env ?i (Some (resolved v)) 300 tr2))
           then (new_result p\<lparr>total_files := count_files v,
                   message := ''git init failed: ''
                     @ snd (snd (fst (run_cmd env ?i (Some (resolved v)) 300 tr2)))\<rparr>,
                 snd (run_cmd env ?i (Some (resolved v)) 300 tr2))
           else configure_and_stage env v (new_result p\<lparr>total_files := count_files v\<rparr>)
                  (path_to_repo_name (resolved v)) use_lfs (count_files v)
                  (snd (snd (fst (run_cmd env ?i (Some (resolved v)) 300 tr2))))
                  (snd (run_cmd env ?i (Some (resolved v)) 300 tr2)))"
    by (simp add: publish_def Let_def tr2_def split_beta)
  have "publish env v (new_result p) (path_to_repo_name (resolved v)) use_lfs ?s
        = configure_and_stage env v (new_result p\<lparr>total_files := count_files v\<rparr>)
            (path_to_repo_name (resolved v)) use_lfs (count_files v) err
            (tr2 @ [Run ?i (Some (resolved v)) 300])"
    unfolding pb rc using ok by simp
  moreover have "times_run diff_cmd (tr2 @ [Run ?i (Some (resolved v)) 300]) = 0"
    using z2 [of diff_cmd] by (simp add: times_run_append times_run_Cons times_run_Nil diff_cmd_def)
  moreover have "times_run push_cmd (tr2 @ [Run ?i (Some (resolved v)) 300]) = 0"
    using z2 [of push_cmd] by (simp add: times_run_append times_run_Cons times_run_Nil push_cmd_def)
  ultimately show ?thesis using pd by metis
qed

lemma process_directory_early:
  assumes "\<not> (dir_exists v \<and> \<not> in_sync env v \<and> walk_fault v = None \<and> \<not> dry \<and> init_ok env)"
  shows "times_run push_cmd (snd (process_directory env v p dry use_lfs)) = 0
         \<and> (message (fst (process_directory env v p dry use_lfs)) = ''Directory does not exist''
            \<or> message (fst (process_directory env v p dry use_lfs)) = ''SKIPPED - Already synced''
            \<or> message (fst (process_directory env v p dry use_lfs)) = ''Dry run - would push''
            \<or> (\<exists>e. message (fst (process_directory env v p dry use_lfs)) = ''git init failed: '' @ e)
            \<or> (\<exists>e. walk_fault v = Some e
                  \<and> message (fst (process_directory env v p dry use_lfs)) = take 100 e))"
proof (cases "dir_exists v")
  case False
  then show ?thesis by (simp add: process_directory_def Let_def times_run_Nil)
next
  case True
  note ex = this
  show ?thesis
  proof (cases "in_sync env v")
    case True
    then have "process_directory env v p dry use_lfs =
           (new_result p\<lparr>result.success := True, message := ''SKIPPED - Already synced'',
              repo_url := github_url (path_to_repo_name (resolved v))\<rparr>,
            sync_queries (resolved v))"
      using ex process_directory_synced [of v env p dry use_lfs] by (simp add: in_sync_def)
    then show ?thesis
      by (simp add: sync_queries_def times_run_Cons times_run_Nil push_cmd_def)
  next
    case False
    let ?s = "snd (is_already_synced env v [])"
    let ?i = "''git init -b main''"
    have z: "times_run c ?s = 0" if "c = ?i \<or> c = diff_cmd \<or> c = push_cmd" for c
      using that by (intro times_run_sync) (auto simp: diff_cmd_def push_cmd_def)
    note ns = False
    show ?thesis
    proof (cases "walk_fault v")
      case (Some e)
      then have "process_directory env v p dry use_lfs = (new_result p\<lparr>message := take 100 e\<rparr>, ?s)"
        using process_directory_not_synced [of v env p dry use_lfs] ex ns
        by (simp add: in_sync_def)
      then show ?thesis using Some z [of push_cmd] by simp
    next
    case None
    have pd: "process_directory env v p dry use_lfs =
       (if dry
        then (new_result p\<lparr>result.success := True, message := ''Dry run - would push'',
                repo_url := github_url (path_to_repo_name (resolved v)),
                result.lfs_files := length (get_large_files (posix_parts (resolved v)) (tree v))\<rparr>, ?s)
        else publish env v (new_result p) (path_to_repo_name (resolved v)) use_lfs ?s)"
      using process_directory_not_synced [of v env p dry use_lfs] ex ns None
      by (simp add: in_sync_def)
    show ?thesis
    proof (cases dry)
      case True
      then show ?thesis using pd z [of push_cmd] by simp
    next
      case False
      then have ni: "\<not> init_ok env" using assms ex ns None by simp
      define tr2 where "tr2 = (if has_git_dir v
         then (?s @ map Rmtree (nested_git_dirs v)) @ [Rmtree (resolved v @ ''/.git'')]
         else ?s @ map Rmtree (nested_git_dirs v))"
      have z2: "times_run c tr2 = 0" if "c = ?i \<or> c = diff_cmd \<or> c = push_cmd" for c
        using z [OF that] by (simp add: tr2_def times_run_Rmtrees times_run_append times_run_Cons times_run_Nil)
      have r: "fst (run_cmd env ?i (Some (resolved v)) 300 tr2) = run_cmd_result True (env ?i 0)"
        using z2 [of ?i] by (simp add: run_cmd_fst)
      obtain ok o1 err where e: "run_cmd_result True (env ?i 0) = (ok, o1, err)"
        by (cases "run_cmd_result True (env ?i 0)") auto
      have nok: "\<not> ok" using ni e by (simp add: init_ok_def)
      have rc: "run_cmd env ?i (Some (resolved v)) 300 tr2 = ((ok, o1, err), tr2 @ [Run ?i (Some (resolved v)) 300])"
        using r e run_cmd_snd [of env ?i "Some (resolved v)" 300 tr2]
        by (cases "run_cmd env ?i (Some (resolved v)) 300 tr2") simp
      have pb: "publish env v (new_result p) (path_to_repo_name (resolved v)) use_lfs ?s
        = (if \<not> fst (fst (run_cmd env ?i (Some (resolved v)) 300 tr2))
           then (new_result p\<lparr>total_files := count_files v,
                   message := ''git init failed: ''
                     @ snd (snd (fst (run_cmd env ?i (Some (resolved v)) 300 tr2)))\<rparr>,
                 snd (run_cmd env ?i (Some (resolved v)) 300 tr2))
           else configure_and_stage env v (new_result p\<lparr>total_files := count_files v\<rparr>)
                  (path_to_repo_name (resolved v)) use_lfs (count_files v)
                  (snd (snd (fst (run_cmd env ?i (Some (resolved v)) 300 tr2))))
                  (snd (run_cmd env ?i (Some (resolved v)) 300 tr2)))"
    by (simp add: publish_def Let_def tr2_def split_beta)
      have "process_directory env v p dry use_lfs
              = (new_result p\<lparr>total_files := count_files v,
                   message := ''git init failed: '' @ err\<rparr>, tr2 @ [Run ?i (Some (resolved v)) 300])"
        using pd False nok unfolding pb rc by simp
      then show ?thesis using z2 [of push_cmd]
        by (simp add: times_run_append times_run_Cons times_run_Nil push_cmd_def)
    qed
    qed
  qed
qed

lemma push_failed_other:
  "''EMPTY REPO - '' @ a \<noteq> push_failed e" "''Success ('' @ a \<noteq> push_failed e"
  by (simp_all add: push_failed_def)

lemma ls_cmd_not_push: "ls_cmd \<noteq> push_cmd"
  by (simp add: ls_cmd_def push_cmd_def)

lemma push_and_verify_pushes:
  "times_run push_cmd (snd (push_and_verify env v res repo n err staged tr))
     \<le> times_run push_cmd tr + 5"
proof -
  let ?t = "before_push env v repo staged tr"
  obtain a t where p: "push_with_retry env (resolved v) err ?t = (a, t)"
    by (cases "push_with_retry env (resolved v) err ?t") auto
  have b: "times_run push_cmd t \<le> times_run push_cmd tr + 5"
    using push_with_retry_bound [of env "resolved v" err ?t] p
    by (simp add: times_run_before_push)
  show ?thesis
  proof (cases a)
    case (Inl msg)
    then show ?thesis using p b by (simp add: push_and_verify_eq)
  next
    case (Inr u)
    then have "snd (push_and_verify env v res repo n err staged tr)
                 = t @ [Run ls_cmd (Some (resolved v)) 300]"
      using p by (simp add: push_and_verify_eq run_cmd_def Let_def)
    then show ?thesis using b ls_cmd_not_push
      by (simp add: times_run_append times_run_Cons times_run_Nil)
  qed
qed

lemma push_and_verify_fail_trace:
  assumes "times_run push_cmd tr = 0" and "\<forall>i < 5. \<not> fst (push_result env i)"
  shows "snd (push_and_verify env v res repo n err staged tr)
           = before_push env v repo staged tr
             @ concat (map (\<lambda>i. failed_push_events (resolved v) i (snd (snd (push_result env i))))
                         [0..<5])"
proof -
  let ?t = "before_push env v repo staged tr"
  have z: "times_run push_cmd ?t = 0" using assms(1) by (simp add: times_run_before_push)
  then have o: "\<And>i. push_outcome env ?t i = push_result env i"
    by (simp add: push_outcome_def push_result_def)
  then have a: "\<forall>i < 5. \<not> fst (push_outcome env ?t i)" using assms(2) by simp
  have f: "fst (push_with_retry env (resolved v) err ?t)
               = Inl (push_failed (snd (snd (push_outcome env ?t 4))))"
    using a push_with_retry_failure by blast
  have "snd (push_with_retry env (resolved v) err ?t)
          = ?t @ concat (map (\<lambda>i. failed_push_events (resolved v) i
                                     (snd (snd (push_outcome env ?t i)))) [0..<5])"
    using a by (rule push_with_retry_trace_fail)
  then show ?thesis using f o
    by (cases "push_with_retry env (resolved v) err ?t") (simp add: push_and_verify_eq)
qed

lemma push_and_verify_success:
  assumes "times_run push_cmd tr = 0" and "k < 5" and "fst (push_result env k)"
    and "\<forall>i < k. \<not> fst (push_result env i)"
  shows "times_run push_cmd (snd (push_and_verify env v res repo n err staged tr)) = k + 1
         \<and> (\<forall>e. message (fst (push_and_verify env v res repo n err staged tr)) \<noteq> push_failed e)
         \<and> snd (push_and_verify env v res repo n err staged tr)
             = before_push env v repo staged tr
               @ concat (map (\<lambda>i. failed_push_events (resolved v) i (snd (snd (push_result env i))))
                           [0..<k])
               @ [Run push_cmd (Some (resolved v)) 600, Run ls_cmd (Some (resolved v)) 300]"
proof -
  let ?t = "before_push env v repo staged tr"
  have z: "times_run push_cmd ?t = 0" using assms(1) by (simp add: times_run_before_push)
  then have o: "\<And>i. push_outcome env ?t i = push_result env i"
    by (simp add: push_outcome_def push_result_def)
  have a2: "fst (push_outcome env ?t k)" using assms(3) o by simp
  have a3: "\<forall>i < k. \<not> fst (push_outcome env ?t i)" using assms(4) o by simp
  obtain a t where p: "push_with_retry env (resolved v) err ?t = (a, t)"
    by (cases "push_with_retry env (resolved v) err ?t") auto
  have s: "a = Inr () \<and> times_run push_cmd t = k + 1"
    using push_with_retry_success [OF assms(2) a2 a3, of "resolved v" err] p z by simp
  have t: "t = ?t @ concat (map (\<lambda>i. failed_push_events (resolved v) i
                                     (snd (snd (push_outcome env ?t i)))) [0..<k])
               @ [Run push_cmd (Some (resolved v)) 600]"
    using push_with_retry_trace_success [OF assms(2) a2 a3, of "resolved v" err] p by simp
  have tr: "snd (push_and_verify env v res repo n err staged tr)
              = t @ [Run ls_cmd (Some (resolved v)) 300]"
    using p s by (simp add: push_and_verify_eq run_cmd_def Let_def)
  have m: "\<forall>e. message (fst (push_and_verify env v res repo n err staged tr)) \<noteq> push_failed e"
    using p s push_failed_other by (simp add: push_and_verify_eq split_beta Let_def)
  have c: "times_run push_cmd (snd (push_and_verify env v res repo n err staged tr)) = k + 1"
    using tr s ls_cmd_not_push by (simp add: times_run_append times_run_Cons times_run_Nil)
  show ?thesis using c m tr t o by simp
qed

lemma configure_and_stage_cases:
  assumes "times_run diff_cmd tr = 0"
  shows "(n > 0 \<and> listing env 0 = [] \<and> listing env 1 = [] \<longrightarrow>
            configure_and_stage env v res repo use_lfs n err tr
              = (res\<lparr>result.lfs_files := large_count v, message := staging_failed n\<rparr>,
                 before_staging env v use_lfs tr
                 @ [Run ''git add -A'' (Some (resolved v)) 300, Run diff_cmd (Some (resolved v)) 300,
                    Run ''git add .'' (Some (resolved v)) 300,
                    Run ''git add --all'' (Some (resolved v)) 300,
                    Run diff_cmd (Some (resolved v)) 300]))
         \<and> (\<not> (n > 0 \<and> listing env 0 = [] \<and> listing env 1 = []) \<longrightarrow>
              (\<exists>staged t. times_run push_cmd t = times_run push_cmd tr
                 \<and> configure_and_stage env v res repo use_lfs n err tr
                     = push_and_verify env v (res\<lparr>result.lfs_files := large_count v\<rparr>)
                         repo n err staged t))"
proof -
  let ?t = "before_staging env v use_lfs tr"
  have z: "times_run diff_cmd ?t = 0" using assms by (simp add: times_run_before_staging)
  then have o: "\<And>i. diff_outcome env ?t i = run_cmd_result True (env diff_cmd i)"
    by (simp add: diff_outcome_def)
  have f: "fst (stage_files env (resolved v) n ?t) =
     (if n > 0 \<and> listing env 0 = []
      then if listing env 1 = [] then Inl (staging_failed n) else Inr (listing env 1)
      else Inr (listing env 0))"
    by (simp add: stage_files_result o listing_def)
  have g: "snd (stage_files env (resolved v) n ?t) =
     (if n > 0 \<and> listing env 0 = []
      then ?t @ [Run ''git add -A'' (Some (resolved v)) 300, Run diff_cmd (Some (resolved v)) 300,
                 Run ''git add .'' (Some (resolved v)) 300,
                 Run ''git add --all'' (Some (resolved v)) 300,
                 Run diff_cmd (Some (resolved v)) 300]
      else ?t @ [Run ''git add -A'' (Some (resolved v)) 300, Run diff_cmd (Some (resolved v)) 300])"
    by (simp add: stage_files_trace o listing_def)
  obtain a t where p: "stage_files env (resolved v) n ?t = (a, t)"
    by (cases "stage_files env (resolved v) n ?t") auto
  have pt: "times_run push_cmd t = times_run push_cmd tr"
    using times_run_stage_files_push [of env "resolved v" n ?t] p
    by (simp add: times_run_before_staging)
  show ?thesis
  proof (cases "n > 0 \<and> listing env 0 = [] \<and> listing env 1 = []")
    case True
    then have "a = Inl (staging_failed n)" using f p by simp
    moreover have "t = ?t @ [Run ''git add -A'' (Some (resolved v)) 300, Run diff_cmd (Some (resolved v)) 300,
                 Run ''git add .'' (Some (resolved v)) 300,
                 Run ''git add --all'' (Some (resolved v)) 300,
                 Run diff_cmd (Some (resolved v)) 300]"
      using g p True by simp
    ultimately show ?thesis using True p by (simp add: configure_and_stage_eq)
  next
    case False
    then obtain staged where "a = Inr staged" using f p by (auto split: if_splits)
    then have "configure_and_stage env v res repo use_lfs n err tr
                     = push_and_verify env v (res\<lparr>result.lfs_files := large_count v\<rparr>)
                         repo n err staged t"
      using p by (simp add: configure_and_stage_eq)
    then show ?thesis using False pt by blast
  qed
qed

lemma job_staging_iff:
  assumes "walk_fault v = None"
  shows "(\<exists>k. message (fst (process_directory env v p dry use_lfs)) = staging_failed k)
           \<longleftrightarrow> dir_exists v \<and> \<not> in_sync env v \<and> \<not> dry \<and> init_ok env
                \<and> count_files v > 0 \<and> listing env 0 = [] \<and> listing env 1 = []"
proof (cases "dir_exists v \<and> \<not> in_sync env v \<and> walk_fault v = None \<and> \<not> dry \<and> init_ok env")
  case False
  then have "\<not> (\<exists>k. message (fst (process_directory env v p dry use_lfs)) = staging_failed k)"
    using process_directory_early [OF False, of p use_lfs] assms msg_distinct(2,5,6,7)
    by (metis msg_distinct(5) [of "''Already synced''", simplified] option.distinct(1))
  then show ?thesis using False assms by blast
next
  case True
  then obtain tr err where t: "times_run diff_cmd tr = 0" "times_run push_cmd tr = 0"
    and pd: "process_directory env v p dry use_lfs
               = configure_and_stage env v (new_result p\<lparr>total_files := count_files v\<rparr>)
                   (path_to_repo_name (resolved v)) use_lfs (count_files v) err tr"
    using process_directory_stage [of v env dry p use_lfs] by blast
  show ?thesis
    using configure_and_stage_staging [OF t(1), of env v "new_result p\<lparr>total_files := count_files v\<rparr>"
            "path_to_repo_name (resolved v)" use_lfs "count_files v" err] True
    unfolding pd by blast
qed

lemma job_staging_result:
  assumes "dir_exists v" "\<not> in_sync env v" "walk_fault v = None" "\<not> dry" "init_ok env"
    and "count_files v > 0" "listing env 0 = []" "listing env 1 = []"
  shows "fst (process_directory env v p dry use_lfs)
           = new_result p\<lparr>total_files := count_files v, result.lfs_files := large_count v,
               message := staging_failed (count_files v)\<rparr>
         \<and> (\<exists>t. snd (process_directory env v p dry use_lfs)
                  = t @ [Run ''git add -A'' (Some (resolved v)) 300,
                         Run diff_cmd (Some (resolved v)) 300,
                         Run ''git add .'' (Some (resolved v)) 300,
                         Run ''git add --all'' (Some (resolved v)) 300,
                         Run diff_cmd (Some (resolved v)) 300])"
proof -
  obtain tr err where t: "times_run diff_cmd tr = 0"
    and pd: "process_directory env v p dry use_lfs
               = configure_and_stage env v (new_result p\<lparr>total_files := count_files v\<rparr>)
                   (path_to_repo_name (resolved v)) use_lfs (count_files v) err tr"
    using process_directory_stage [OF assms(1-5), of p use_lfs] by blast
  show ?thesis
    using configure_and_stage_cases [OF t, of "count_files v" env v
            "new_result p\<lparr>total_files := count_files v\<rparr>"
            "path_to_repo_name (resolved v)" use_lfs err] assms(6-8)
    unfolding pd by simp
qed

lemma job_push:
  assumes "dir_exists v" "\<not> in_sync env v" "walk_fault v = None" "\<not> dry" "init_ok env"
    and "\<not> (count_files v > 0 \<and> listing env 0 = [] \<and> listing env 1 = [])"
  shows "\<exists>err staged t. times_run push_cmd t = 0
           \<and> process_directory env v p dry use_lfs
               = push_and_verify env v
                   (new_result p\<lparr>total_files := count_files v, result.lfs_files := large_count v\<rparr>)
                   (path_to_repo_name (resolved v)) (count_files v) err staged t"
proof -
  obtain tr err where t: "times_run diff_cmd tr = 0" "times_run push_cmd tr = 0"
    and pd: "process_directory env v p dry use_lfs
               = configure_and_stage env v (new_result p\<lparr>total_files := count_files v\<rparr>)
                   (path_to_repo_name (resolved v)) use_lfs (count_files v) err tr"
    using process_directory_stage [OF assms(1-5), of p use_lfs] by blast
  obtain staged t' where "times_run push_cmd t' = times_run push_cmd tr"
    and "configure_and_stage env v (new_result p\<lparr>total_files := count_files v\<rparr>)
           (path_to_repo_name (resolved v)) use_lfs (count_files v) err tr
         = push_and_verify env v
             (new_result p\<lparr>total_files := count_files v\<rparr>\<lparr>result.lfs_files := large_count v\<rparr>)
             (path_to_repo_name (resolved v)) (count_files v) err staged t'"
    using configure_and_stage_cases [OF t(1), of "count_files v" env v
            "new_result p\<lparr>total_files := count_files v\<rparr>"
            "path_to_repo_name (resolved v)" use_lfs err] assms(6)
    by blast
  then show ?thesis using pd t(2) by (metis (no_types, lifting) result.surjective result.update_convs)
qed

lemma configure_and_stage_pushes:
  "times_run push_cmd (snd (configure_and_stage env v res repo use_lfs n err tr))
     \<le> times_run push_cmd tr + 5"
proof -
  let ?t = "before_staging env v use_lfs tr"
  obtain a t where p: "stage_files env (resolved v) n ?t = (a, t)"
    by (cases "stage_files env (resolved v) n ?t") auto
  have pt: "times_run push_cmd t = times_run push_cmd tr"
    using times_run_stage_files_push [of env "resolved v" n ?t] p
    by (simp add: times_run_before_staging)
  show ?thesis
  proof (cases a)
    case (Inl msg)
    then show ?thesis using p pt by (simp add: configure_and_stage_eq)
  next
    case (Inr staged)
    then show ?thesis
      using p pt push_and_verify_pushes [of env v "res\<lparr>result.lfs_files := large_count v\<rparr>"
               repo n err staged t]
      by (simp add: configure_and_stage_eq)
  qed
qed

lemma job_pushes: "times_run push_cmd (snd (process_directory env v p dry use_lfs)) \<le> 5"
proof (cases "dir_exists v \<and> \<not> in_sync env v \<and> walk_fault v = None \<and> \<not> dry \<and> init_ok env")
  case False
  then show ?thesis using process_directory_early [OF False, of p use_lfs] by simp
next
  case True
  then obtain tr err where t: "times_run push_cmd tr = 0"
    and pd: "process_directory env v p dry use_lfs
               = configure_and_stage env v (new_result p\<lparr>total_files := count_files v\<rparr>)
                   (path_to_repo_name (resolved v)) use_lfs (count_files v) err tr"
    using process_directory_stage [of v env dry p use_lfs] by blast
  show ?thesis unfolding pd
    using configure_and_stage_pushes [of env v "new_result p\<lparr>total_files := count_files v\<rparr>"
            "path_to_repo_name (resolved v)" use_lfs "count_files v" err tr] t
    by simp
qed

lemma job_push_fail:
  assumes "dir_exists v" "\<not> in_sync env v" "walk_fault v = None" "\<not> dry" "init_ok env"
    and "\<not> (count_files v > 0 \<and> listing env 0 = [] \<and> listing env 1 = [])"
    and "\<forall>i < 5. \<not> fst (push_result env i)"
  shows "fst (process_directory env v p dry use_lfs)
           = new_result p\<lparr>total_files := count_files v, result.lfs_files := large_count v,
               message := push_failed (snd (snd (push_result env 4)))\<rparr>
         \<and> (\<exists>t. snd (process_directory env v p dry use_lfs)
                  = t @ concat (map (\<lambda>i. failed_push_events (resolved v) i
                                            (snd (snd (push_result env i)))) [0..<5]))"
proof -
  obtain err staged t where t: "times_run push_cmd t = 0"
    and pd: "process_directory env v p dry use_lfs
               = push_and_verify env v
                   (new_result p\<lparr>total_files := count_files v, result.lfs_files := large_count v\<rparr>)
                   (path_to_repo_name (resolved v)) (count_files v) err staged t"
    using job_push [OF assms(1-6), of p use_lfs] by blast
  show ?thesis unfolding pd
    using push_and_verify_fail [OF t assms(7)] push_and_verify_fail_trace [OF t assms(7)]
    by simp
qed

lemma job_push_success:
  assumes "dir_exists v" "\<not> in_sync env v" "walk_fault v = None" "\<not> dry" "init_ok env"
    and "\<not> (count_files v > 0 \<and> listing env 0 = [] \<and> listing env 1 = [])"
    and "k < 5" "fst (push_result env k)" "\<forall>i < k. \<not> fst (push_result env i)"
  shows "times_run push_cmd (snd (process_directory env v p dry use_lfs)) = k + 1
         \<and> (\<forall>e. message (fst (process_directory env v p dry use_lfs)) \<noteq> push_failed e)
         \<and> (\<exists>t. snd (process_directory env v p dry use_lfs)
                  = t @ concat (map (\<lambda>i. failed_push_events (resolved v) i
                                            (snd (snd (push_result env i)))) [0..<k])
                    @ [Run push_cmd (Some (resolved v)) 600, Run ls_cmd (Some (resolved v)) 300])"
proof -
  obtain err staged t where t: "times_run push_cmd t = 0"
    and pd: "process_directory env v p dry use_lfs
               = push_and_verify env v
                   (new_result p\<lparr>total_files := count_files v, result.lfs_files := large_count v\<rparr>)
                   (path_to_repo_name (resolved v)) (count_files v) err staged t"
    using job_push [OF assms(1-6), of p use_lfs] by blast
  show ?thesis unfolding pd
    using push_and_verify_success [OF t assms(7-9), of v
            "new_result p\<lparr>total_files := count_files v, result.lfs_files := large_count v\<rparr>"
            "path_to_repo_name (resolved v)" "count_files v" err staged]
    by blast
qed

section \<open>Push with retry: claim C2\<close>




section \<open>Staging: claim C4\<close>



section \<open>The sync check: claim C5\<close>

text \<open>
  Claim C5. For a directory that exists and has a \<open>.git\<close>, when the query for the URL of
  \<open>origin\<close> succeeds with a non-blank answer, the status query succeeds and lists nothing,
  and the count of commits ahead of \<open>origin/main\<close> succeeds and is 0, the job succeeds
  with the message \<open>SKIPPED - Already synced\<close>, and all it has run are these three
  read-only queries: nothing is removed, staged, committed, created or pushed. The
  directory counts as synced exactly in that case: when there is no \<open>.git\<close> or one of
  the queries fails or answers otherwise, the job is not skipped and goes on with the rest
  of the workflow, which (unless a walk of the tree raises, or the run is a dry run)
  reinitialises the repository.
\<close>

theorem already_synced_skips:
  "(dir_exists v \<and> has_git_dir v \<and> remote_configured env \<and> tree_clean env \<and> not_ahead env \<longrightarrow>
      process_directory env v p dry_run use_lfs =
        (new_result p\<lparr>result.success := True, message := ''SKIPPED - Already synced'',
           repo_url := github_url (path_to_repo_name (resolved v))\<rparr>,
         sync_queries (resolved v)))
   \<and> contains (py_lower ''SKIPPED - Already synced'') ''already synced''
   \<and> (fst (fst (is_already_synced env v [])) \<longleftrightarrow>
        has_git_dir v \<and> remote_configured env \<and> tree_clean env \<and> not_ahead env)
   \<and> fst (is_already_synced env v []) =
        (if \<not> has_git_dir v then (False, ''No .git'')
         else if \<not> remote_configured env then (False, ''No remote'')
         else if tree_clean env \<and> not_ahead env then (True, ''Already synced'')
         else (False, ''Has changes''))
   \<and> (dir_exists v
        \<and> \<not> (has_git_dir v \<and> remote_configured env \<and> tree_clean env \<and> not_ahead env) \<longrightarrow>
        process_directory env v p dry_run use_lfs =
          (case walk_fault v of
             Some e \<Rightarrow> (new_result p\<lparr>message := take 100 e\<rparr>, snd (is_already_synced env v []))
           | None \<Rightarrow>
               if dry_run
               then (new_result p\<lparr>result.success := True, message := ''Dry run - would push'',
                       repo_url := github_url (path_to_repo_name (resolved v)),
                       result.lfs_files :=
                         length (get_large_files (posix_parts (resolved v)) (tree v))\<rparr>,
                     snd (is_already_synced env v []))
               else publish env v (new_result p) (path_to_repo_name (resolved v)) use_lfs
                      (snd (is_already_synced env v []))))
   \<and> (dir_exists v
        \<and> \<not> (has_git_dir v \<and> remote_configured env \<and> tree_clean env \<and> not_ahead env)
        \<and> walk_fault v = None \<and> \<not> dry_run \<longrightarrow>
        Run ''git init -b main'' (Some (resolved v)) 300
          \<in> set (snd (process_directory env v p dry_run use_lfs)))"
proof -
  have skip: "dir_exists v \<and> has_git_dir v \<and> remote_configured env \<and> tree_clean env \<and> not_ahead env \<longrightarrow>
      process_directory env v p dry_run use_lfs =
        (new_result p\<lparr>result.success := True, message := ''SKIPPED - Already synced'',
           repo_url := github_url (path_to_repo_name (resolved v))\<rparr>,
         sync_queries (resolved v))"
    using process_directory_synced by blast
  have wording: "contains (py_lower ''SKIPPED - Already synced'') ''already synced''"
    by code_simp
  have iff: "fst (fst (is_already_synced env v [])) \<longleftrightarrow>
        has_git_dir v \<and> remote_configured env \<and> tree_clean env \<and> not_ahead env"
    by (rule is_already_synced_iff)
  have reason: "fst (is_already_synced env v []) =
        (if \<not> has_git_dir v then (False, ''No .git'')
         else if \<not> remote_configured env then (False, ''No remote'')
         else if tree_clean env \<and> not_ahead env then (True, ''Already synced'')
         else (False, ''Has changes''))"
    by (rule is_already_synced_reason)
  have cont: "dir_exists v
        \<and> \<not> (has_git_dir v \<and> remote_configured env \<and> tree_clean env \<and> not_ahead env) \<longrightarrow>
        process_directory env v p dry_run use_lfs =
          (case walk_fault v of
             Some e \<Rightarrow> (new_result p\<lparr>message := take 100 e\<rparr>, snd (is_already_synced env v []))
           | None \<Rightarrow>
               if dry_run
               then (new_result p\<lparr>result.success := True, message := ''Dry run - would push'',
                       repo_url := github_url (path_to_repo_name (resolved v)),
                       result.lfs_files :=
                         length (get_large_files (posix_parts (resolved v)) (tree v))\<rparr>,
                     snd (is_already_synced env v []))
               else publish env v (new_result p) (path_to_repo_name (resolved v)) use_lfs
                      (snd (is_already_synced env v [])))"
    using process_directory_not_synced by blast
  have init: "dir_exists v
        \<and> \<not> (has_git_dir v \<and> remote_configured env \<and> tree_clean env \<and> not_ahead env)
        \<and> walk_fault v = None \<and> \<not> dry_run \<longrightarrow>
        Run ''git init -b main'' (Some (resolved v)) 300
          \<in> set (snd (process_directory env v p dry_run use_lfs))"
  proof
    assume a: "dir_exists v
        \<and> \<not> (has_git_dir v \<and> remote_configured env \<and> tree_clean env \<and> not_ahead env)
        \<and> walk_fault v = None \<and> \<not> dry_run"
    then have "process_directory env v p dry_run use_lfs =
                 publish env v (new_result p) (path_to_repo_name (resolved v)) use_lfs
                   (snd (is_already_synced env v []))"
      using cont by simp
    then show "Run ''git init -b main'' (Some (resolved v)) 300
          \<in> set (snd (process_directory env v p dry_run use_lfs))"
      using publish_runs_init by simp
  qed
  show ?thesis using skip wording iff reason cont init by blast
qed

theorem already_synced_skips_witness:
  "process_directory synced_world sample_view ''My App'' False True =
     (new_result ''My App''\<lparr>result.success := True, message := ''SKIPPED - Already synced'',
        repo_url := ''https://github.com/Michaelunkai/my-app''\<rparr>,
      [Run ''git remote get-url origin'' (Some ''/work/My App'') 300,
       Run ''git status --porcelain'' (Some ''/work/My App'') 300,
       Run ''git rev-list --count origin/main..HEAD 2>nul'' (Some ''/work/My App'') 300])
   \<and> Run ''git init -b main'' (Some ''/work/My App'') 300
        \<in> set (snd (process_directory dirty_world sample_view ''My App'' False True))"
proof -
  have w: "remote_configured synced_world \<and> tree_clean synced_world \<and> not_ahead synced_world"
    by code_simp
  have d: "\<not> tree_clean dirty_world" by code_simp
  have v: "dir_exists sample_view \<and> has_git_dir sample_view \<and> walk_fault sample_view = None
           \<and> resolved sample_view = ''/work/My App''"
    by (simp add: sample_view_def)
  have u: "github_url (path_to_repo_name ''/work/My App'') = ''https://github.com/Michaelunkai/my-app''"
    by code_simp
  have "process_directory synced_world sample_view ''My App'' False True =
        (new_result ''My App''\<lparr>result.success := True, message := ''SKIPPED - Already synced'',
           repo_url := github_url (path_to_repo_name (resolved sample_view))\<rparr>,
         sync_queries (resolved sample_view))"
    using already_synced_skips [of sample_view synced_world "''My App''" False True] w v by blast
  moreover have "Run ''git init -b main'' (Some (resolved sample_view)) 300
        \<in> set (snd (process_directory dirty_world sample_view ''My App'' False True))"
    using already_synced_skips [of sample_view dirty_world "''My App''" False True] d v by blast
  ultimately show ?thesis using v u by (simp add: sync_queries_def)
qed

end
